theory Spec2Isabelle
  imports Main "HOL-Library.Word"
begin

section \<open>Errors\<close>

text \<open>
  The tool aborts through \<^verbatim>\<open>error(...)\<close>; the model returns \<open>Inl (Fatal msg)\<close>, where
  \<open>msg\<close> is the leading part of the format string. A step that C++ leaves undefined (a null
  or mistyped pointer dereferenced, an iterator of an empty container dereferenced) is
  \<open>Inl (Undefined_Behaviour what)\<close>.
\<close>

datatype error = Fatal string | Undefined_Behaviour string

section \<open>Plugins\<close>

text \<open>
  \<^verbatim>\<open>struct Plugin\<close>. Function pointers, the handle and the context are addresses;
  \<open>None\<close> is \<^verbatim>\<open>nullptr\<close>.
\<close>

record Plugin =
  filename :: string
  handle :: nat
  context_ptr :: "nat option"
  result :: int
  initFunc :: "nat option"
  instrFunc :: "nat option"
  matchFunc :: "nat option"
  patchFunc :: "nat option"
  finiFunc :: "nat option"

text \<open>
  The file system and the dynamic loader, as \<^verbatim>\<open>openPlugin\<close> uses them:
  \<^verbatim>\<open>realpath\<close>, \<^verbatim>\<open>dlopen\<close> (\<open>None\<close> when they return \<^verbatim>\<open>nullptr\<close>) and
  \<^verbatim>\<open>dlsym\<close> (\<open>None\<close> when the shared object does not export the symbol).
\<close>

record loader =
  realpath :: "string \<Rightarrow> string option"
  dlopen :: "string \<Rightarrow> nat option"
  dlsym :: "nat \<Rightarrow> string \<Rightarrow> nat option"

text \<open>The globals \<^verbatim>\<open>plugins\<close> (keyed by canonical path) and \<^verbatim>\<open>option_notify\<close>.\<close>

record plugin_state =
  plugins :: "string \<rightharpoonup> Plugin"
  option_notify :: bool

text \<open>
  Modelled from the spec: \<^verbatim>\<open>hasSuffix\<close> is a helper of the frontend, which is not part of
  this file; the spec has \<^verbatim>\<open>openPlugin\<close> append \<^verbatim>\<open>.so\<close> if absent.
\<close>

definition hasSuffix :: "string \<Rightarrow> string \<Rightarrow> bool" where
  "hasSuffix str suf =
     (length suf \<le> length str \<and> drop (length str - length suf) str = suf)"

definition openPlugin :: "loader \<Rightarrow> string \<Rightarrow> plugin_state \<Rightarrow> error + (Plugin \<times> plugin_state)" where
  "openPlugin ld basename st =
     (let fname = (if \<not> hasSuffix basename ''.so'' then basename @ ''.so'' else basename) in
      case realpath ld fname of
        None \<Rightarrow> Inl (Fatal ''failed to create path for plugin'')
      | Some pathname \<Rightarrow>
          (case plugins st pathname of
             Some p \<Rightarrow> Inr (p, st)
           | None \<Rightarrow>
               (case dlopen ld pathname of
                  None \<Rightarrow> Inl (Fatal ''failed to load plugin'')
                | Some h \<Rightarrow>
                    (let plugin = \<lparr> filename = pathname, handle = h, context_ptr = None, result = 0,
                           initFunc = dlsym ld h ''e9_plugin_init_v1'',
                           instrFunc = dlsym ld h ''e9_plugin_instr_v1'',
                           matchFunc = dlsym ld h ''e9_plugin_match_v1'',
                           patchFunc = dlsym ld h ''e9_plugin_patch_v1'',
                           finiFunc = dlsym ld h ''e9_plugin_fini_v1'' \<rparr> in
                     if initFunc plugin = None \<and> instrFunc plugin = None \<and>
                        patchFunc plugin = None \<and> finiFunc plugin = None
                     then Inl (Fatal ''failed to load plugin; the shared object does not export any plugin API functions'')
                     else Inr (plugin,
                            st\<lparr> plugins := (plugins st)(filename plugin \<mapsto> plugin),
                               option_notify := (option_notify st \<or> instrFunc plugin \<noteq> None) \<rparr>)))))"

section \<open>Match values\<close>

text \<open>
  \<^verbatim>\<open>enum Register\<close> is declared in the frontend header, which is not part of this file.
  The enumerators named in this file are constructors; every other enumerator is
  \<open>REGISTER_OTHER n\<close>. The integer value of an enumerator, which the C++ comparison of two
  registers uses, is a parameter (\<open>reg_num\<close> below).
\<close>

datatype Register =
    REGISTER_NONE
  | REGISTER_ES | REGISTER_CS | REGISTER_SS | REGISTER_DS | REGISTER_FS | REGISTER_GS
  | REGISTER_RAX | REGISTER_RCX | REGISTER_RDX | REGISTER_RBX | REGISTER_RSP | REGISTER_RBP
  | REGISTER_RSI | REGISTER_RDI | REGISTER_R8 | REGISTER_R9 | REGISTER_R10 | REGISTER_R11
  | REGISTER_R12 | REGISTER_R13 | REGISTER_R14 | REGISTER_R15 | REGISTER_RIP
  | REGISTER_EAX | REGISTER_ECX | REGISTER_EDX | REGISTER_EBX | REGISTER_ESP | REGISTER_EBP
  | REGISTER_ESI | REGISTER_EDI | REGISTER_R8D | REGISTER_R9D | REGISTER_R10D | REGISTER_R11D
  | REGISTER_R12D | REGISTER_R13D | REGISTER_R14D | REGISTER_R15D
  | REGISTER_OTHER nat

datatype OpType = OP_TYPE_IMM | OP_TYPE_REG | OP_TYPE_MEM

fun OpType_num :: "OpType \<Rightarrow> nat" where
  "OpType_num OP_TYPE_IMM = 1"
| "OpType_num OP_TYPE_REG = 2"
| "OpType_num OP_TYPE_MEM = 3"

type_synonym Access = "32 word"

definition ACCESS_READ :: Access where "ACCESS_READ = 0x01"
definition ACCESS_WRITE :: Access where "ACCESS_WRITE = 0x02"

text \<open>
  \<^verbatim>\<open>struct MatchValue\<close>: the type tag and the member of the union that the tag selects.
  \<^verbatim>\<open>intptr_t\<close> payloads are read as signed integers.
\<close>

datatype MatchValue =
    MATCH_TYPE_UNDEFINED
  | MATCH_TYPE_NIL
  | MATCH_TYPE_INTEGER int
  | MATCH_TYPE_OPERAND OpType
  | MATCH_TYPE_ACCESS Access
  | MATCH_TYPE_REGISTER Register
  | MATCH_TYPE_MEMORY
  | MATCH_TYPE_STRING

fun MatchType :: "MatchValue \<Rightarrow> nat" where
  "MatchType MATCH_TYPE_UNDEFINED = 0x00"
| "MatchType MATCH_TYPE_NIL = 0x01"
| "MatchType (MATCH_TYPE_INTEGER _) = 0x02"
| "MatchType (MATCH_TYPE_OPERAND _) = 0x04"
| "MatchType (MATCH_TYPE_ACCESS _) = 0x08"
| "MatchType (MATCH_TYPE_REGISTER _) = 0x10"
| "MatchType MATCH_TYPE_MEMORY = 0x20"
| "MatchType MATCH_TYPE_STRING = 0x40"

text \<open>\<^verbatim>\<open>this->compare(value)\<close>; \<open>rn\<close> gives the integer value of a register enumerator.\<close>

fun compare :: "(Register \<Rightarrow> int) \<Rightarrow> MatchValue \<Rightarrow> MatchValue \<Rightarrow> int" where
  "compare rn this val =
     (if MatchType val < MatchType this then 1
      else if MatchType val > MatchType this then -1
      else (case (this, val) of
              (MATCH_TYPE_INTEGER i, MATCH_TYPE_INTEGER vi) \<Rightarrow>
                (if vi < i then 1 else if vi > i then -1 else 0)
            | (MATCH_TYPE_OPERAND op, MATCH_TYPE_OPERAND vop) \<Rightarrow>
                (if OpType_num vop < OpType_num op then 1
                 else if OpType_num vop > OpType_num op then -1 else 0)
            | (MATCH_TYPE_ACCESS access, MATCH_TYPE_ACCESS vaccess) \<Rightarrow>
                (if vaccess < access then 1 else if vaccess > access then -1 else 0)
            | (MATCH_TYPE_REGISTER reg, MATCH_TYPE_REGISTER vreg) \<Rightarrow>
                (if rn vreg < rn reg then 1 else if rn vreg > rn reg then -1 else 0)
            | _ \<Rightarrow> 0))"

declare compare.simps [simp del]

definition mv_eq :: "(Register \<Rightarrow> int) \<Rightarrow> MatchValue \<Rightarrow> MatchValue \<Rightarrow> bool" where
  "mv_eq rn a b = (compare rn a b = 0)"

definition mv_lt :: "(Register \<Rightarrow> int) \<Rightarrow> MatchValue \<Rightarrow> MatchValue \<Rightarrow> bool" where
  "mv_lt rn a b = (compare rn a b < 0)"

definition mv_leq :: "(Register \<Rightarrow> int) \<Rightarrow> MatchValue \<Rightarrow> MatchValue \<Rightarrow> bool" where
  "mv_leq rn a b = (compare rn a b \<le> 0)"

definition mv_gt :: "(Register \<Rightarrow> int) \<Rightarrow> MatchValue \<Rightarrow> MatchValue \<Rightarrow> bool" where
  "mv_gt rn a b = (compare rn a b > 0)"

definition mv_geq :: "(Register \<Rightarrow> int) \<Rightarrow> MatchValue \<Rightarrow> MatchValue \<Rightarrow> bool" where
  "mv_geq rn a b = (compare rn a b \<ge> 0)"

section \<open>The CSV index\<close>

text \<open>
  Modelled from the spec: \<^verbatim>\<open>Index<MatchValue>\<close> is declared in the CSV implementation,
  which is not part of this file. The spec describes it as an ordered set of match values, each
  annotated with the CSV record it came from, and this file uses it as an ordered map from
  \<^verbatim>\<open>MatchValue\<close> to \<^verbatim>\<open>const Record *\<close> (\<^verbatim>\<open>insert\<close>, \<^verbatim>\<open>find\<close>, \<^verbatim>\<open>size\<close>,
  \<^verbatim>\<open>begin\<close>, \<^verbatim>\<open>rbegin\<close>, \<^verbatim>\<open>->first\<close>, \<^verbatim>\<open>->second\<close>). The model is the list of its entries
  in iteration order: ascending under \<^verbatim>\<open>operator<\<close>, no two keys equivalent. A record pointer
  is an address, \<open>None\<close> for \<^verbatim>\<open>nullptr\<close>.
\<close>

type_synonym Record_ptr = "nat option"
type_synonym Index = "(MatchValue \<times> Record_ptr) list"

definition index_size :: "Index \<Rightarrow> nat" where
  "index_size vs = length vs"

text \<open>\<^verbatim>\<open>find\<close>: the entry whose key is equivalent to \<open>x\<close> (neither is less than the other).\<close>

definition index_find :: "(Register \<Rightarrow> int) \<Rightarrow> Index \<Rightarrow> MatchValue \<Rightarrow> (MatchValue \<times> Record_ptr) option" where
  "index_find rn vs x = find (\<lambda>e. \<not> mv_lt rn (fst e) x \<and> \<not> mv_lt rn x (fst e)) vs"

definition index_begin :: "Index \<Rightarrow> (MatchValue \<times> Record_ptr) option" where
  "index_begin vs = (case vs of [] \<Rightarrow> None | e # _ \<Rightarrow> Some e)"

definition index_rbegin :: "Index \<Rightarrow> (MatchValue \<times> Record_ptr) option" where
  "index_rbegin vs = (if vs = [] then None else Some (last vs))"

text \<open>\<^verbatim>\<open>insert\<close>: an entry with an equivalent key keeps the map as it is.\<close>

fun index_insert :: "(Register \<Rightarrow> int) \<Rightarrow> MatchValue \<times> Record_ptr \<Rightarrow> Index \<Rightarrow> Index" where
  "index_insert rn e [] = [e]"
| "index_insert rn e (e' # vs) =
     (if mv_lt rn (fst e) (fst e') then e # e' # vs
      else if mv_lt rn (fst e') (fst e) then e' # index_insert rn e vs
      else e' # vs)"

text \<open>The container's invariant: the entries iterate in strictly ascending key order.\<close>

definition index_ok :: "(Register \<Rightarrow> int) \<Rightarrow> Index \<Rightarrow> bool" where
  "index_ok rn vs = sorted_wrt (\<lambda>a b. mv_lt rn (fst a) (fst b)) vs"

section \<open>Instructions\<close>

text \<open>
  The disassembler's \<^verbatim>\<open>cs_insn\<close> with its \<^verbatim>\<open>detail->x86\<close> part, as far as this file
  reads it. Disassembler registers (\<^verbatim>\<open>x86_reg\<close>) are numbers, \<^verbatim>\<open>X86_REG_INVALID\<close> is 0.
  The operand array with \<^verbatim>\<open>op_count\<close> and the group array with \<^verbatim>\<open>groups_count\<close> are lists.
\<close>

datatype x86_op_type = X86_OP_INVALID | X86_OP_REG | X86_OP_IMM | X86_OP_MEM

datatype x86_insn = X86_INS_LEA | X86_INS_NOP | X86_INS_OTHER nat

datatype cs_group = CS_GRP_JUMP | CS_GRP_CALL | CS_GRP_RET | CS_GRP_OTHER nat

definition X86_REG_INVALID :: nat where "X86_REG_INVALID = 0"

definition CS_AC_READ :: "8 word" where "CS_AC_READ = 1"
definition CS_AC_WRITE :: "8 word" where "CS_AC_WRITE = 2"

record x86_op_mem =
  mem_segment :: nat
  mem_base :: nat
  mem_index :: nat
  mem_scale :: int
  mem_disp :: int

record cs_x86_op =
  op_type :: x86_op_type
  op_reg :: nat
  op_imm :: int
  op_mem :: x86_op_mem
  op_size :: "8 word"
  op_access :: "8 word"

record cs_insn =
  insn_id :: x86_insn
  address :: "64 word"
  insn_size :: "16 word"
  mnemonic :: string
  op_str :: string
  groups :: "cs_group list"
  operands :: "cs_x86_op list"

section \<open>Match tests and expressions\<close>

datatype MatchKind =
    MATCH_INVALID | MATCH_TRUE | MATCH_FALSE | MATCH_PLUGIN | MATCH_ASSEMBLY | MATCH_ADDRESS
  | MATCH_CALL | MATCH_JUMP | MATCH_MNEMONIC | MATCH_OFFSET | MATCH_RANDOM | MATCH_RETURN
  | MATCH_SIZE | MATCH_OP | MATCH_SRC | MATCH_DST | MATCH_IMM | MATCH_REG | MATCH_MEM
  | MATCH_REGS | MATCH_READS | MATCH_WRITES

datatype MatchField =
    MATCH_FIELD_NONE | MATCH_FIELD_TYPE | MATCH_FIELD_ACCESS | MATCH_FIELD_SIZE
  | MATCH_FIELD_SEG | MATCH_FIELD_DISPL | MATCH_FIELD_BASE | MATCH_FIELD_INDEX
  | MATCH_FIELD_SCALE

datatype MatchCmp =
    MATCH_CMP_INVALID | MATCH_CMP_DEFINED | MATCH_CMP_EQ_ZERO | MATCH_CMP_NEQ_ZERO
  | MATCH_CMP_EQ | MATCH_CMP_NEQ | MATCH_CMP_LT | MATCH_CMP_LEQ | MATCH_CMP_GT | MATCH_CMP_GEQ
  | MATCH_CMP_IN

text \<open>
  The union \<^verbatim>\<open>data / regex / values / regs\<close> of \<^verbatim>\<open>MatchTest\<close>: the pointer is null, or
  points to what the parser stored. A regular expression is its source text.
\<close>

datatype TestData =
    DATA_NULL
  | DATA_REGEX string
  | DATA_VALUES Index
  | DATA_REGS "Register list"

text \<open>
  \<^verbatim>\<open>struct MatchTest\<close>. \<open>test_basename\<close> is \<open>None\<close> for \<^verbatim>\<open>nullptr\<close>; \<open>test_plugin\<close>
  is the key of the plugin in the registry, \<open>None\<close> for \<^verbatim>\<open>nullptr\<close>.
\<close>

record MatchTest =
  test_match :: MatchKind
  test_idx :: int
  test_field :: MatchField
  test_cmp :: MatchCmp
  test_basename :: "string option"
  test_plugin :: "string option"
  test_data :: TestData

text \<open>\<^verbatim>\<open>struct MatchExpr\<close>; \<open>MATCH_EXPR_NULL\<close> is the null pointer.\<close>

datatype MatchExpr =
    MATCH_EXPR_NULL
  | MATCH_OP_NOT MatchExpr
  | MATCH_OP_AND MatchExpr MatchExpr
  | MATCH_OP_OR MatchExpr MatchExpr
  | MATCH_OP_TEST MatchTest

text \<open>
  What the evaluator takes from outside this file: \<^verbatim>\<open>getRegister\<close> (frontend), the integer
  values of the \<^verbatim>\<open>Register\<close> enumerators, \<^verbatim>\<open>std::regex_match\<close>,
  \<^verbatim>\<open>cs_regs_access\<close> (\<open>None\<close> when it reports an error, else the registers read and
  written) and the sequence of numbers that \<^verbatim>\<open>rand()\<close> returns after \<^verbatim>\<open>srand(0xe9e9e9e9)\<close>.
\<close>

record env =
  getRegister :: "nat \<Rightarrow> Register"
  reg_num :: "Register \<Rightarrow> int"
  regex_match :: "string \<Rightarrow> string \<Rightarrow> bool"
  cs_regs_access :: "cs_insn \<Rightarrow> (nat list \<times> nat list) option"
  rand_seq :: "nat \<Rightarrow> int"

text \<open>
  The state an evaluation changes: how many times \<^verbatim>\<open>rand()\<close> has been called, and the
  cell \<^verbatim>\<open>*record\<close> that the caller's \<^verbatim>\<open>record\<close> pointer designates.
\<close>

record eval_state =
  rand_calls :: nat
  record_cell :: Record_ptr

section \<open>The match value extractor\<close>

fun getOperand :: "cs_x86_op list \<Rightarrow> int \<Rightarrow> x86_op_type \<Rightarrow> 8 word \<Rightarrow> cs_x86_op option" where
  "getOperand [] idx t access = None"
| "getOperand (op # ops) idx t access =
     (if (if t = X86_OP_INVALID then True else op_type op = t) \<and>
         (and (op_access op) access \<noteq> 0 \<or>
          (op_type op = X86_OP_IMM \<and> and access CS_AC_READ \<noteq> 0))
      then (if idx = 0 then Some op else getOperand ops (idx - 1) t access)
      else getOperand ops idx t access)"

fun getNumOperands :: "cs_x86_op list \<Rightarrow> x86_op_type \<Rightarrow> 8 word \<Rightarrow> int" where
  "getNumOperands [] t access = 0"
| "getNumOperands (op # ops) t access =
     (if (if t = X86_OP_INVALID then True else op_type op = t) \<and>
         (and (op_access op) access \<noteq> 0 \<or>
          (op_type op = X86_OP_IMM \<and> and access CS_AC_READ \<noteq> 0))
      then 1 + getNumOperands ops t access
      else getNumOperands ops t access)"

text \<open>The first switch of \<^verbatim>\<open>makeMatchValue\<close>: the operand type and access filter.\<close>

fun operand_filter :: "MatchKind \<Rightarrow> x86_op_type \<times> 8 word" where
  "operand_filter MATCH_SRC = (X86_OP_INVALID, CS_AC_READ)"
| "operand_filter MATCH_DST = (X86_OP_INVALID, CS_AC_WRITE)"
| "operand_filter MATCH_IMM = (X86_OP_IMM, or CS_AC_READ CS_AC_WRITE)"
| "operand_filter MATCH_REG = (X86_OP_REG, or CS_AC_READ CS_AC_WRITE)"
| "operand_filter MATCH_MEM = (X86_OP_MEM, or CS_AC_READ CS_AC_WRITE)"
| "operand_filter _ = (X86_OP_INVALID, or CS_AC_READ CS_AC_WRITE)"

text \<open>The inner switch on \<^verbatim>\<open>field\<close>, for an operand that was found.\<close>

fun operand_field :: "env \<Rightarrow> cs_insn \<Rightarrow> cs_x86_op \<Rightarrow> MatchField \<Rightarrow> MatchValue" where
  "operand_field ev I op MATCH_FIELD_NONE =
     (case op_type op of
        X86_OP_IMM \<Rightarrow> MATCH_TYPE_INTEGER (op_imm op)
      | X86_OP_REG \<Rightarrow> MATCH_TYPE_REGISTER (getRegister ev (op_reg op))
      | X86_OP_MEM \<Rightarrow> MATCH_TYPE_MEMORY
      | X86_OP_INVALID \<Rightarrow> MATCH_TYPE_UNDEFINED)"
| "operand_field ev I op MATCH_FIELD_SIZE = MATCH_TYPE_INTEGER (uint (op_size op))"
| "operand_field ev I op MATCH_FIELD_TYPE =
     (case op_type op of
        X86_OP_IMM \<Rightarrow> MATCH_TYPE_OPERAND OP_TYPE_IMM
      | X86_OP_REG \<Rightarrow> MATCH_TYPE_OPERAND OP_TYPE_REG
      | X86_OP_MEM \<Rightarrow> MATCH_TYPE_OPERAND OP_TYPE_MEM
      | X86_OP_INVALID \<Rightarrow> MATCH_TYPE_UNDEFINED)"
| "operand_field ev I op MATCH_FIELD_ACCESS =
     (if op_type op = X86_OP_IMM then MATCH_TYPE_ACCESS ACCESS_READ
      else
        (let access = (0 :: Access);
             access = (if and (op_access op) CS_AC_READ \<noteq> 0 then or access ACCESS_READ else access);
             access = (if and (op_access op) CS_AC_WRITE \<noteq> 0 then or access ACCESS_WRITE else access);
             access = (if op_type op = X86_OP_MEM \<and>
                          (insn_id I = X86_INS_LEA \<or> insn_id I = X86_INS_NOP)
                       then 0 else access)
         in MATCH_TYPE_ACCESS access))"
| "operand_field ev I op MATCH_FIELD_SEG =
     (if op_type op \<noteq> X86_OP_MEM then MATCH_TYPE_UNDEFINED
      else if mem_segment (op_mem op) = X86_REG_INVALID then MATCH_TYPE_NIL
      else MATCH_TYPE_REGISTER (getRegister ev (mem_segment (op_mem op))))"
| "operand_field ev I op MATCH_FIELD_DISPL =
     (if op_type op \<noteq> X86_OP_MEM then MATCH_TYPE_UNDEFINED
      else MATCH_TYPE_INTEGER (mem_disp (op_mem op)))"
| "operand_field ev I op MATCH_FIELD_BASE =
     (if op_type op \<noteq> X86_OP_MEM then MATCH_TYPE_UNDEFINED
      else if mem_base (op_mem op) = X86_REG_INVALID then MATCH_TYPE_NIL
      else MATCH_TYPE_REGISTER (getRegister ev (mem_base (op_mem op))))"
| "operand_field ev I op MATCH_FIELD_INDEX =
     (if op_type op \<noteq> X86_OP_MEM then MATCH_TYPE_UNDEFINED
      else if mem_index (op_mem op) = X86_REG_INVALID then MATCH_TYPE_NIL
      else MATCH_TYPE_REGISTER (getRegister ev (mem_index (op_mem op))))"
| "operand_field ev I op MATCH_FIELD_SCALE =
     (if op_type op \<noteq> X86_OP_MEM then MATCH_TYPE_UNDEFINED
      else MATCH_TYPE_INTEGER (mem_scale (op_mem op)))"

definition is_operand_kind :: "MatchKind \<Rightarrow> bool" where
  "is_operand_kind m =
     (m = MATCH_OP \<or> m = MATCH_SRC \<or> m = MATCH_DST \<or> m = MATCH_IMM \<or> m = MATCH_REG \<or> m = MATCH_MEM)"

text \<open>
  \<^verbatim>\<open>makeMatchValue\<close>. The last argument is the number of calls of \<^verbatim>\<open>rand()\<close> so far; it is
  returned, one higher when the \<^verbatim>\<open>random\<close> attribute called \<^verbatim>\<open>rand()\<close>.
\<close>

definition makeMatchValue ::
  "env \<Rightarrow> MatchKind \<Rightarrow> int \<Rightarrow> MatchField \<Rightarrow> cs_insn \<Rightarrow> int \<Rightarrow> int \<Rightarrow> nat \<Rightarrow> MatchValue \<times> nat" where
  "makeMatchValue ev m idx field I offset plugin_val rnd =
     (let (t, access) = operand_filter m in
      if m = MATCH_TRUE then (MATCH_TYPE_INTEGER 1, rnd)
      else if m = MATCH_FALSE then (MATCH_TYPE_INTEGER 0, rnd)
      else if m = MATCH_ADDRESS then (MATCH_TYPE_INTEGER (sint (address I)), rnd)
      else if m = MATCH_CALL then
        (MATCH_TYPE_INTEGER (if list_ex (\<lambda>g. g = CS_GRP_CALL) (groups I) then 1 else 0), rnd)
      else if m = MATCH_JUMP then
        (MATCH_TYPE_INTEGER (if list_ex (\<lambda>g. g = CS_GRP_JUMP) (groups I) then 1 else 0), rnd)
      else if is_operand_kind m then
        (if idx < 0 then
           (if field = MATCH_FIELD_SIZE
            then (MATCH_TYPE_INTEGER (getNumOperands (operands I) t access), rnd)
            else (MATCH_TYPE_UNDEFINED, rnd))
         else
           (case getOperand (operands I) idx t access of
              None \<Rightarrow> (MATCH_TYPE_UNDEFINED, rnd)
            | Some op \<Rightarrow> (operand_field ev I op field, rnd)))
      else if m = MATCH_OFFSET then (MATCH_TYPE_INTEGER offset, rnd)
      else if m = MATCH_PLUGIN then (MATCH_TYPE_INTEGER plugin_val, rnd)
      else if m = MATCH_RANDOM then (MATCH_TYPE_INTEGER (rand_seq ev rnd), Suc rnd)
      else if m = MATCH_RETURN then
        (MATCH_TYPE_INTEGER (if list_ex (\<lambda>g. g = CS_GRP_RET) (groups I) then 1 else 0), rnd)
      else if m = MATCH_SIZE then (MATCH_TYPE_INTEGER (uint (insn_size I)), rnd)
      else (MATCH_TYPE_UNDEFINED, rnd))"

text \<open>\<^verbatim>\<open>makeMatchString\<close>, without the buffer: the text a regular expression is matched on.\<close>

definition makeMatchString :: "MatchKind \<Rightarrow> cs_insn \<Rightarrow> nat \<Rightarrow> error + string" where
  "makeMatchString m I buf_size =
     (if m = MATCH_ASSEMBLY then
        (if op_str I = [] then Inr (mnemonic I)
         else (let r = length (mnemonic I) + 1 + length (op_str I) in
               if r \<ge> buf_size then Inl (Fatal ''failed to create assembly string'')
               else Inr (mnemonic I @ '' '' @ op_str I)))
      else if m = MATCH_MNEMONIC then Inr (mnemonic I)
      else Inr [])"

section \<open>The match evaluator\<close>

text \<open>\<^verbatim>\<open>BUFSIZ\<close> of the C library.\<close>

definition BUFSIZ :: nat where "BUFSIZ = 8192"

text \<open>Reading \<^verbatim>\<open>test->values\<close>, \<^verbatim>\<open>test->regex\<close> and \<^verbatim>\<open>test->regs\<close> through the union.\<close>

definition test_values :: "MatchTest \<Rightarrow> error + Index" where
  "test_values test =
     (case test_data test of
        DATA_VALUES vs \<Rightarrow> Inr vs
      | _ \<Rightarrow> Inl (Undefined_Behaviour ''test->values does not point to an index''))"

definition test_regex :: "MatchTest \<Rightarrow> error + string" where
  "test_regex test =
     (case test_data test of
        DATA_REGEX re \<Rightarrow> Inr re
      | _ \<Rightarrow> Inl (Undefined_Behaviour ''test->regex does not point to a regex''))"

definition test_regs :: "MatchTest \<Rightarrow> error + Register list" where
  "test_regs test =
     (case test_data test of
        DATA_REGS regs \<Rightarrow> Inr regs
      | _ \<Rightarrow> Inl (Undefined_Behaviour ''test->regs does not point to a register set''))"

text \<open>\<^verbatim>\<open>test->plugin->result\<close>, read when the attribute is \<^verbatim>\<open>MATCH_PLUGIN\<close>, else 0.\<close>

definition plugin_val :: "(string \<rightharpoonup> Plugin) \<Rightarrow> MatchTest \<Rightarrow> error + int" where
  "plugin_val ps test =
     (if test_match test = MATCH_PLUGIN then
        (case test_plugin test of
           None \<Rightarrow> Inl (Undefined_Behaviour ''test->plugin is null'')
         | Some k \<Rightarrow>
             (case ps k of
                None \<Rightarrow> Inl (Undefined_Behaviour ''test->plugin is dangling'')
              | Some p \<Rightarrow> Inr (result p)))
      else Inr 0)"

text \<open>
  The switch on \<^verbatim>\<open>test->cmp\<close> for an extracted value \<open>x\<close>. Its default branch
  (\<^verbatim>\<open>return false\<close>) is taken by the caller; here it is \<open>False\<close>.
\<close>

definition cmp_switch :: "(Register \<Rightarrow> int) \<Rightarrow> MatchTest \<Rightarrow> MatchValue \<Rightarrow> error + bool" where
  "cmp_switch rn test x =
     (case test_cmp test of
        MATCH_CMP_DEFINED \<Rightarrow> Inr True
      | MATCH_CMP_EQ_ZERO \<Rightarrow> Inr (case x of MATCH_TYPE_INTEGER i \<Rightarrow> i = 0 | _ \<Rightarrow> False)
      | MATCH_CMP_NEQ_ZERO \<Rightarrow> Inr (case x of MATCH_TYPE_INTEGER i \<Rightarrow> i \<noteq> 0 | _ \<Rightarrow> False)
      | MATCH_CMP_EQ \<Rightarrow>
          (case test_values test of Inl e \<Rightarrow> Inl e
           | Inr vs \<Rightarrow> Inr (index_find rn vs x \<noteq> None))
      | MATCH_CMP_NEQ \<Rightarrow>
          (case test_values test of Inl e \<Rightarrow> Inl e
           | Inr vs \<Rightarrow> Inr (if index_size vs = 1 then index_find rn vs x = None else True))
      | MATCH_CMP_LT \<Rightarrow>
          (case test_values test of Inl e \<Rightarrow> Inl e
           | Inr vs \<Rightarrow>
               (case index_rbegin vs of
                  None \<Rightarrow> Inl (Undefined_Behaviour ''rbegin() of an empty index dereferenced'')
                | Some e \<Rightarrow> Inr (mv_lt rn x (fst e))))
      | MATCH_CMP_LEQ \<Rightarrow>
          (case test_values test of Inl e \<Rightarrow> Inl e
           | Inr vs \<Rightarrow>
               (case index_rbegin vs of
                  None \<Rightarrow> Inl (Undefined_Behaviour ''rbegin() of an empty index dereferenced'')
                | Some e \<Rightarrow> Inr (mv_leq rn x (fst e))))
      | MATCH_CMP_GT \<Rightarrow>
          (case test_values test of Inl e \<Rightarrow> Inl e
           | Inr vs \<Rightarrow>
               (case index_begin vs of
                  None \<Rightarrow> Inl (Undefined_Behaviour ''begin() of an empty index dereferenced'')
                | Some e \<Rightarrow> Inr (mv_gt rn x (fst e))))
      | MATCH_CMP_GEQ \<Rightarrow>
          (case test_values test of Inl e \<Rightarrow> Inl e
           | Inr vs \<Rightarrow>
               (case index_begin vs of
                  None \<Rightarrow> Inl (Undefined_Behaviour ''begin() of an empty index dereferenced'')
                | Some e \<Rightarrow> Inr (mv_geq rn x (fst e))))
      | _ \<Rightarrow> Inr False)"

text \<open>
  The CSV binding at the end of the value branch: \<open>basename\<close> and \<open>record\<close> are the
  parameters of \<^verbatim>\<open>matchEval\<close> (\<open>record\<close> tells whether the pointer is non-null).
\<close>

definition csv_bind ::
  "(Register \<Rightarrow> int) \<Rightarrow> MatchTest \<Rightarrow> MatchValue \<Rightarrow> bool \<Rightarrow> string option \<Rightarrow> bool \<Rightarrow> eval_state
     \<Rightarrow> error + (bool \<times> eval_state)" where
  "csv_bind rn test x pass basename record st =
     (case basename of
        None \<Rightarrow> Inr (pass, st)
      | Some b \<Rightarrow>
          (if pass \<and> record \<and> test_cmp test = MATCH_CMP_EQ then
             (case test_basename test of
                None \<Rightarrow> Inl (Undefined_Behaviour ''strcmp of a null test->basename'')
              | Some tb \<Rightarrow>
                  (if tb = b then
                     (case test_values test of Inl e \<Rightarrow> Inl e
                      | Inr vs \<Rightarrow>
                          (case index_find rn vs x of
                             None \<Rightarrow> Inr (pass, st)
                           | Some i \<Rightarrow>
                               (if record_cell st \<noteq> None \<and> snd i \<noteq> record_cell st
                                then Inl (Fatal ''failed to lookup value from file; matching is ambiguous'')
                                else Inr (pass, st\<lparr> record_cell := snd i \<rparr>))))
                   else Inr (pass, st)))
           else Inr (pass, st)))"

text \<open>The attributes whose case of the second switch calls \<^verbatim>\<open>makeMatchValue\<close>.\<close>

definition is_value_kind :: "MatchKind \<Rightarrow> bool" where
  "is_value_kind m =
     (m = MATCH_TRUE \<or> m = MATCH_FALSE \<or> m = MATCH_ADDRESS \<or> m = MATCH_CALL \<or> m = MATCH_JUMP \<or>
      m = MATCH_OFFSET \<or> m = MATCH_OP \<or> m = MATCH_SRC \<or> m = MATCH_DST \<or> m = MATCH_IMM \<or>
      m = MATCH_REG \<or> m = MATCH_MEM \<or> m = MATCH_PLUGIN \<or> m = MATCH_RANDOM \<or> m = MATCH_RETURN \<or>
      m = MATCH_SIZE)"

text \<open>The value branch from the call of \<^verbatim>\<open>makeMatchValue\<close> on.\<close>

definition matchEval_value ::
  "env \<Rightarrow> (string \<rightharpoonup> Plugin) \<Rightarrow> MatchTest \<Rightarrow> cs_insn \<Rightarrow> int \<Rightarrow> string option \<Rightarrow> bool \<Rightarrow> eval_state
     \<Rightarrow> error + (bool \<times> eval_state)" where
  "matchEval_value ev ps test I offset basename record st =
     (case plugin_val ps test of Inl e \<Rightarrow> Inl e
      | Inr pv \<Rightarrow>
          (let (x, rnd) = makeMatchValue ev (test_match test) (test_idx test) (test_field test)
                            I offset pv (rand_calls st);
               st = st\<lparr> rand_calls := rnd \<rparr>
           in if test_cmp test = MATCH_CMP_INVALID \<or> test_cmp test = MATCH_CMP_IN
              then Inr (False, st)
              else
                (case cmp_switch (reg_num ev) test x of Inl e \<Rightarrow> Inl e
                 | Inr pass \<Rightarrow>
                     (let pass = (if x = MATCH_TYPE_UNDEFINED then False else pass)
                      in csv_bind (reg_num ev) test x pass basename record st))))"

text \<open>The second switch of \<^verbatim>\<open>matchEval\<close>, on \<^verbatim>\<open>test->match\<close>.\<close>

definition matchEval_test ::
  "env \<Rightarrow> (string \<rightharpoonup> Plugin) \<Rightarrow> MatchTest \<Rightarrow> cs_insn \<Rightarrow> int \<Rightarrow> string option \<Rightarrow> bool \<Rightarrow> eval_state
     \<Rightarrow> error + (bool \<times> eval_state)" where
  "matchEval_test ev ps test I offset basename record st =
     (let m = test_match test in
      if m = MATCH_ASSEMBLY \<or> m = MATCH_MNEMONIC then
        (if test_cmp test = MATCH_CMP_DEFINED then Inr (True, st)
         else
           (case makeMatchString m I (BUFSIZ - 1) of Inl e \<Rightarrow> Inl e
            | Inr str \<Rightarrow>
                (case test_regex test of Inl e \<Rightarrow> Inl e
                 | Inr re \<Rightarrow>
                     (let pass = regex_match ev str re
                      in Inr (if test_cmp test = MATCH_CMP_NEQ then \<not> pass else pass, st)))))
      else if m = MATCH_READS \<or> m = MATCH_WRITES \<or> m = MATCH_REGS then
        (if test_cmp test = MATCH_CMP_DEFINED then Inr (True, st)
         else
           (case cs_regs_access ev I of
              None \<Rightarrow> Inl (Fatal ''failed to get registers for instruction'')
            | Some (reads, writes) \<Rightarrow>
                (if (m \<noteq> MATCH_WRITES \<and> reads \<noteq> []) \<or> (m \<noteq> MATCH_READS \<and> writes \<noteq> []) then
                   (case test_regs test of Inl e \<Rightarrow> Inl e
                    | Inr regs \<Rightarrow>
                        (let pass = (m \<noteq> MATCH_WRITES \<and>
                                     list_ex (\<lambda>r. getRegister ev r \<in> set regs) reads);
                             pass = (pass \<or> (m \<noteq> MATCH_READS \<and>
                                     list_ex (\<lambda>r. getRegister ev r \<in> set regs) writes))
                         in Inr (pass, st)))
                 else Inr (False, st))))
      else if is_value_kind m then
        (if test_cmp test \<noteq> MATCH_CMP_EQ_ZERO \<and> test_cmp test \<noteq> MATCH_CMP_NEQ_ZERO \<and>
            test_cmp test \<noteq> MATCH_CMP_DEFINED then
           (case test_values test of Inl e \<Rightarrow> Inl e
            | Inr vs \<Rightarrow>
                (if index_size vs = 0 then Inr (False, st)
                 else matchEval_value ev ps test I offset basename record st))
         else matchEval_value ev ps test I offset basename record st)
      else Inr (False, st))"

text \<open>
  \<^verbatim>\<open>matchEval\<close>. Negation passes null pointers for \<open>basename\<close> and \<open>record\<close>; conjunction
  and disjunction evaluate their second argument only when the first does not decide.
\<close>

fun matchEval ::
  "env \<Rightarrow> (string \<rightharpoonup> Plugin) \<Rightarrow> MatchExpr \<Rightarrow> cs_insn \<Rightarrow> int \<Rightarrow> string option \<Rightarrow> bool \<Rightarrow> eval_state
     \<Rightarrow> error + (bool \<times> eval_state)" where
  "matchEval ev ps MATCH_EXPR_NULL I offset basename record st = Inr (True, st)"
| "matchEval ev ps (MATCH_OP_NOT arg1) I offset basename record st =
     (case matchEval ev ps arg1 I offset None False st of
        Inl e \<Rightarrow> Inl e
      | Inr (pass, st') \<Rightarrow> Inr (\<not> pass, st'))"
| "matchEval ev ps (MATCH_OP_AND arg1 arg2) I offset basename record st =
     (case matchEval ev ps arg1 I offset basename record st of
        Inl e \<Rightarrow> Inl e
      | Inr (pass, st') \<Rightarrow>
          (if \<not> pass then Inr (False, st')
           else matchEval ev ps arg2 I offset basename record st'))"
| "matchEval ev ps (MATCH_OP_OR arg1 arg2) I offset basename record st =
     (case matchEval ev ps arg1 I offset basename record st of
        Inl e \<Rightarrow> Inl e
      | Inr (pass, st') \<Rightarrow>
          (if pass then Inr (True, st')
           else matchEval ev ps arg2 I offset basename record st'))"
| "matchEval ev ps (MATCH_OP_TEST test) I offset basename record st =
     matchEval_test ev ps test I offset basename record st"

section \<open>Actions and the rule dispatcher\<close>

datatype ActionKind =
    ACTION_INVALID | ACTION_CALL | ACTION_EXIT | ACTION_PASSTHRU | ACTION_PLUGIN | ACTION_PRINT
  | ACTION_TRAP

text \<open>\<^verbatim>\<open>struct Action\<close>, the fields the dispatcher and the patch walk read.\<close>

record Action =
  action_match :: MatchExpr
  action_kind :: ActionKind
  action_name :: string
  action_plugin :: "string option"

text \<open>
  Modelled from the spec: \<^verbatim>\<open>matchAction\<close> calls \<^verbatim>\<open>matchEval\<close> with four arguments, and
  the declaration that gives \<open>basename\<close> and \<open>record\<close> their default arguments is in the
  metadata implementation, which is not part of this file. The dispatcher of the spec evaluates
  a rule's expression without a record to bind: the defaults are null pointers.
\<close>

definition matchAction ::
  "env \<Rightarrow> (string \<rightharpoonup> Plugin) \<Rightarrow> Action \<Rightarrow> cs_insn \<Rightarrow> int \<Rightarrow> eval_state \<Rightarrow> error + (bool \<times> eval_state)" where
  "matchAction ev ps action I offset st =
     matchEval ev ps (action_match action) I offset None False st"

text \<open>The loop of \<^verbatim>\<open>match\<close>, from the rule at index \<open>idx\<close> on.\<close>

fun match_from ::
  "env \<Rightarrow> (string \<rightharpoonup> Plugin) \<Rightarrow> Action list \<Rightarrow> cs_insn \<Rightarrow> int \<Rightarrow> int \<Rightarrow> eval_state
     \<Rightarrow> error + (int \<times> eval_state)" where
  "match_from ev ps [] I offset idx st = Inr (-1, st)"
| "match_from ev ps (action # actions) I offset idx st =
     (case matchAction ev ps action I offset st of
        Inl e \<Rightarrow> Inl e
      | Inr (pass, st') \<Rightarrow>
          (if pass then Inr (idx, st')
           else match_from ev ps actions I offset (idx + 1) st'))"

definition match ::
  "env \<Rightarrow> (string \<rightharpoonup> Plugin) \<Rightarrow> Action list \<Rightarrow> cs_insn \<Rightarrow> int \<Rightarrow> eval_state
     \<Rightarrow> error + (int \<times> eval_state)" where
  "match ev ps actions I offset st = match_from ev ps actions I offset 0 st"

text \<open>
  The state in which the dispatcher evaluates the rule at index \<open>k\<close>: the state left by the
  rules before it, evaluated in order.
\<close>

fun rules_state ::
  "env \<Rightarrow> (string \<rightharpoonup> Plugin) \<Rightarrow> Action list \<Rightarrow> cs_insn \<Rightarrow> int \<Rightarrow> nat \<Rightarrow> eval_state \<Rightarrow> eval_state" where
  "rules_state ev ps actions I offset 0 st = st"
| "rules_state ev ps [] I offset (Suc k) st = st"
| "rules_state ev ps (action # actions) I offset (Suc k) st =
     (case matchAction ev ps action I offset st of
        Inl e \<Rightarrow> st
      | Inr (pass, st') \<Rightarrow> rules_state ev ps actions I offset k st')"

text \<open>The rule at index \<open>k\<close> is evaluated without error and does not match.\<close>

definition rule_fails ::
  "env \<Rightarrow> (string \<rightharpoonup> Plugin) \<Rightarrow> Action list \<Rightarrow> cs_insn \<Rightarrow> int \<Rightarrow> eval_state \<Rightarrow> nat \<Rightarrow> bool" where
  "rule_fails ev ps actions I offset st k =
     (case matchAction ev ps (actions ! k) I offset (rules_state ev ps actions I offset k st) of
        Inl e \<Rightarrow> False
      | Inr (pass, st') \<Rightarrow> \<not> pass)"

section \<open>The parser of memory operands\<close>

text \<open>
  Modelled from the spec: the lexer (\<^verbatim>\<open>Parser\<close>) is the parser implementation, which is
  not part of this file. The spec gives it a mode label used in diagnostics, tokens and one-token
  lookahead. The model is the list of the tokens not yet read, each with the integer value the
  lexer stores in \<^verbatim>\<open>parser.i\<close>; \<^verbatim>\<open>getToken\<close> reads one, \<^verbatim>\<open>peekToken\<close> looks at
  one, \<^verbatim>\<open>expectToken\<close> reads one and fails on any other, \<^verbatim>\<open>unexpectedToken\<close> is the
  fatal error with the mode. Punctuation tokens are their characters.
\<close>

datatype Token =
    TOKEN_END | TOKEN_INTEGER | TOKEN_REGISTER | TOKEN_NIL
  | TOKEN_MEM8 | TOKEN_MEM16 | TOKEN_MEM32 | TOKEN_MEM64
  | TOKEN_CHAR char | TOKEN_OTHER nat

record Parser =
  parser_mode :: string
  parser_tokens :: "(Token \<times> int) list"
  parser_i :: int

definition getToken :: "Parser \<Rightarrow> Token \<times> Parser" where
  "getToken p =
     (case parser_tokens p of
        [] \<Rightarrow> (TOKEN_END, p)
      | (t, v) # rest \<Rightarrow> (t, p\<lparr> parser_tokens := rest, parser_i := v \<rparr>))"

definition peekToken :: "Parser \<Rightarrow> Token" where
  "peekToken p = (case parser_tokens p of [] \<Rightarrow> TOKEN_END | (t, v) # rest \<Rightarrow> t)"

definition unexpectedToken :: "Parser \<Rightarrow> error" where
  "unexpectedToken p = Fatal (''failed to parse '' @ parser_mode p @ ''; unexpected token'')"

definition expectToken :: "Parser \<Rightarrow> Token \<Rightarrow> error + Parser" where
  "expectToken p t = (let (t', p') = getToken p in if t' = t then Inr p' else Inl (unexpectedToken p'))"

text \<open>\<^verbatim>\<open>struct MemOp\<close> of the frontend, in the order of its initializer.\<close>

record MemOp =
  memop_seg :: Register
  memop_disp :: "32 word"
  memop_base :: Register
  memop_index :: Register
  memop_scale :: "8 word"
  memop_size :: nat

definition memop_seg_registers :: "Register list" where
  "memop_seg_registers =
     [REGISTER_NONE, REGISTER_ES, REGISTER_CS, REGISTER_SS, REGISTER_DS, REGISTER_FS, REGISTER_GS]"

definition memop_base_registers :: "Register list" where
  "memop_base_registers =
     [REGISTER_NONE, REGISTER_RAX, REGISTER_RCX, REGISTER_RDX, REGISTER_RBX, REGISTER_RSP,
      REGISTER_RBP, REGISTER_RSI, REGISTER_RDI, REGISTER_R8, REGISTER_R9, REGISTER_R10,
      REGISTER_R11, REGISTER_R12, REGISTER_R13, REGISTER_R14, REGISTER_R15, REGISTER_RIP,
      REGISTER_EAX, REGISTER_ECX, REGISTER_EDX, REGISTER_EBX, REGISTER_ESP, REGISTER_EBP,
      REGISTER_ESI, REGISTER_EDI, REGISTER_R8D, REGISTER_R9D, REGISTER_R10D, REGISTER_R11D,
      REGISTER_R12D, REGISTER_R13D, REGISTER_R14D, REGISTER_R15D]"

definition memop_index_registers :: "Register list" where
  "memop_index_registers =
     [REGISTER_NONE, REGISTER_RAX, REGISTER_RCX, REGISTER_RDX, REGISTER_RBX, REGISTER_RBP,
      REGISTER_RSI, REGISTER_RDI, REGISTER_R8, REGISTER_R9, REGISTER_R10, REGISTER_R11,
      REGISTER_R12, REGISTER_R13, REGISTER_R14, REGISTER_R15,
      REGISTER_EAX, REGISTER_ECX, REGISTER_EDX, REGISTER_EBX, REGISTER_EBP,
      REGISTER_ESI, REGISTER_EDI, REGISTER_R8D, REGISTER_R9D, REGISTER_R10D, REGISTER_R11D,
      REGISTER_R12D, REGISTER_R13D, REGISTER_R14D, REGISTER_R15D]"

definition rip_error :: "Parser \<Rightarrow> error" where
  "rip_error p =
     Fatal (''failed to parse '' @ parser_mode p @
            ''; invalid memory operand with %rip base register and non-empty index/scale'')"

text \<open>
  \<^verbatim>\<open>parseMemOp\<close> from the label \<^verbatim>\<open>memop_validate\<close> on. The test for \<^verbatim>\<open>%rip\<close> reads
  \<^verbatim>\<open>memop.scale\<close>, which is assigned from \<^verbatim>\<open>scale64\<close> only after it.
\<close>

definition memop_validate :: "Parser \<Rightarrow> MemOp \<Rightarrow> int \<Rightarrow> int \<Rightarrow> error + (MemOp \<times> Parser)" where
  "memop_validate p memop disp64 scale64 =
     (case expectToken p (TOKEN_CHAR CHR ''>'') of
        Inl e \<Rightarrow> Inl e
      | Inr p \<Rightarrow>
          if disp64 < - 2147483648 \<or> disp64 > 2147483647 then
            Inl (Fatal (''failed to parse '' @ parser_mode p @ ''; expected displacement within the range''))
          else if memop_seg memop \<notin> set memop_seg_registers then
            Inl (Fatal (''failed to parse '' @ parser_mode p @ ''; invalid memory operand segment register''))
          else if memop_base memop \<notin> set memop_base_registers then
            Inl (Fatal (''failed to parse '' @ parser_mode p @ ''; invalid memory operand base register''))
          else if memop_index memop \<notin> set memop_index_registers then
            Inl (Fatal (''failed to parse '' @ parser_mode p @ ''; invalid memory operand index register''))
          else if scale64 \<noteq> 1 \<and> scale64 \<noteq> 2 \<and> scale64 \<noteq> 4 \<and> scale64 \<noteq> 8 then
            Inl (Fatal (''failed to parse '' @ parser_mode p @ ''; expected scale with value {1,2,4,8}''))
          else if memop_base memop = REGISTER_RIP \<and> memop_index memop \<noteq> REGISTER_NONE \<and>
                  memop_scale memop \<noteq> 1 then
            Inl (rip_error p)
          else Inr (memop\<lparr> memop_disp := word_of_int disp64, memop_scale := word_of_int scale64 \<rparr>, p))"

text \<open>The scale: \<^verbatim>\<open>expectToken(TOKEN_INTEGER); scale64 = parser.i; expectToken(')')\<close>.\<close>

definition memop_scale_part :: "Parser \<Rightarrow> MemOp \<Rightarrow> int \<Rightarrow> error + (MemOp \<times> Parser)" where
  "memop_scale_part p memop disp64 =
     (case expectToken p TOKEN_INTEGER of
        Inl e \<Rightarrow> Inl e
      | Inr p \<Rightarrow>
          (let scale64 = parser_i p in
           case expectToken p (TOKEN_CHAR CHR '')'') of
             Inl e \<Rightarrow> Inl e
           | Inr p \<Rightarrow> memop_validate p memop disp64 scale64))"

text \<open>The second switch: the index register.\<close>

definition memop_index_part ::
  "(int \<Rightarrow> Register) \<Rightarrow> Parser \<Rightarrow> MemOp \<Rightarrow> int \<Rightarrow> int \<Rightarrow> error + (MemOp \<times> Parser)" where
  "memop_index_part to_Register p memop disp64 scale64 =
     (let (t, p) = getToken p in
      if t = TOKEN_CHAR CHR '','' then memop_scale_part p memop disp64
      else if t = TOKEN_NIL \<or> t = TOKEN_REGISTER then
        (let memop = memop\<lparr> memop_index := to_Register (parser_i p) \<rparr>;
             (t, p) = getToken p
         in if t = TOKEN_CHAR CHR '')'' then memop_validate p memop disp64 scale64
            else if t = TOKEN_CHAR CHR '','' then memop_scale_part p memop disp64
            else Inl (unexpectedToken p))
      else if t = TOKEN_CHAR CHR '')'' then memop_validate p memop disp64 scale64
      else Inl (unexpectedToken p))"

text \<open>The first switch: the base register.\<close>

definition memop_base_part ::
  "(int \<Rightarrow> Register) \<Rightarrow> Parser \<Rightarrow> MemOp \<Rightarrow> int \<Rightarrow> int \<Rightarrow> error + (MemOp \<times> Parser)" where
  "memop_base_part to_Register p memop disp64 scale64 =
     (let (t, p) = getToken p in
      if t = TOKEN_CHAR CHR '','' then memop_index_part to_Register p memop disp64 scale64
      else if t = TOKEN_NIL \<or> t = TOKEN_REGISTER then
        (let memop = memop\<lparr> memop_base := to_Register (parser_i p) \<rparr>;
             (t, p) = getToken p
         in if t = TOKEN_CHAR CHR '')'' then memop_validate p memop disp64 scale64
            else if t = TOKEN_CHAR CHR '','' then memop_index_part to_Register p memop disp64 scale64
            else Inl (unexpectedToken p))
      else if t = TOKEN_CHAR CHR '')'' then memop_validate p memop disp64 scale64
      else Inl (unexpectedToken p))"

text \<open>
  \<^verbatim>\<open>parseMemOp(parser, t, memop)\<close>; \<open>to_Register\<close> is the cast \<^verbatim>\<open>(Register)parser.i\<close>.
  The result is the operand and the parser after it.
\<close>

definition parseMemOp ::
  "(int \<Rightarrow> Register) \<Rightarrow> Parser \<Rightarrow> Token \<Rightarrow> MemOp \<Rightarrow> error + (MemOp \<times> Parser)" where
  "parseMemOp to_Register p t memop =
     (if t \<noteq> TOKEN_MEM8 \<and> t \<noteq> TOKEN_MEM16 \<and> t \<noteq> TOKEN_MEM32 \<and> t \<noteq> TOKEN_MEM64
      then Inl (unexpectedToken p)
      else
        (let memop = memop\<lparr> memop_size := 1 \<rparr>;
             disp64 = 0;
             scale64 = 1;
             memop = memop\<lparr> memop_seg := REGISTER_NONE, memop_disp := 0,
                      memop_base := REGISTER_NONE, memop_index := REGISTER_NONE, memop_scale := 1 \<rparr>
         in case expectToken p (TOKEN_CHAR CHR ''<'') of
              Inl e \<Rightarrow> Inl e
            | Inr p \<Rightarrow>
                (case (if peekToken p = TOKEN_REGISTER
                       then (let (t, p) = getToken p in
                             case expectToken p (TOKEN_CHAR CHR '':'') of
                               Inl e \<Rightarrow> Inl e
                             | Inr p' \<Rightarrow> Inr (memop\<lparr> memop_seg := to_Register (parser_i p) \<rparr>, p'))
                       else Inr (memop, p)) of
                   Inl e \<Rightarrow> Inl e
                 | Inr (memop, p) \<Rightarrow>
                     (let (disp64, p) = (if peekToken p = TOKEN_INTEGER
                                         then (let (t, p) = getToken p in (parser_i p, p))
                                         else (disp64, p))
                      in if peekToken p \<noteq> TOKEN_CHAR CHR ''(''
                         then memop_validate p memop disp64 scale64
                         else (let (t, p) = getToken p
                               in memop_base_part to_Register p memop disp64 scale64)))))"

section \<open>Locations and the patch walk\<close>

text \<open>\<^verbatim>\<open>struct Location\<close>: the bit-fields with their widths.\<close>

record Location =
  loc_offset :: "48 word"
  loc_size :: "4 word"
  loc_emitted :: bool
  loc_patch :: bool
  loc_action :: "10 word"

text \<open>
  The backend stream, as far as the walk writes it. The four-argument
  \<^verbatim>\<open>sendInstructionMessage(out, addr, size, offset)\<close> of the frontend appends an
  \<open>Instruction\<close> message. For a builtin action, \<^verbatim>\<open>buildMetadata\<close> and
  \<^verbatim>\<open>sendPatchMessage\<close> (both outside this file) write one \<open>Patch\<close> entry with the name
  of the action and the file offset of the site. For a plugin action the stream is handed to
  the patch function of the plugin, which is outside this file: the call is one
  \<open>Plugin_patch\<close> entry with the key of the plugin and the file offset of the site.
\<close>

datatype message =
    Instruction "64 word" "64 word" "64 word"
  | Patch string "64 word"
  | Plugin_patch string "64 word"

text \<open>
  \<^verbatim>\<open>sendInstructionMessage(out, loc, addr, text_addr, text_offset)\<close>. The arithmetic is
  that of 64-bit two's complement: \<^verbatim>\<open>text_addr + loc.offset\<close> wraps, the difference is read
  as a signed number. The result is the returned flag, the location and the stream.
\<close>

definition sendInstructionMessage ::
  "message list \<Rightarrow> Location \<Rightarrow> 64 word \<Rightarrow> 64 word \<Rightarrow> 64 word \<Rightarrow> bool \<times> Location \<times> message list" where
  "sendInstructionMessage out loc addr text_addr text_offset =
     (if \<bar>sint ((text_addr + ucast (loc_offset loc)) - addr)\<bar> > 127 + 2 + 15
      then (False, loc, out)
      else if loc_emitted loc then (True, loc, out)
      else (True, loc\<lparr> loc_emitted := True \<rparr>,
            out @ [Instruction (text_addr + ucast (loc_offset loc)) (ucast (loc_size loc))
                     (text_offset + ucast (loc_offset loc))]))"

text \<open>
  The first inner loop of the walk, \<^verbatim>\<open>for (j = i; !done && j >= 0; j--)\<close>, from \<open>j\<close> down.
  The loop is entered with \<open>j < length locs\<close>.
\<close>

fun send_down ::
  "64 word \<Rightarrow> 64 word \<Rightarrow> 64 word \<Rightarrow> nat \<Rightarrow> Location list \<Rightarrow> message list
     \<Rightarrow> Location list \<times> message list" where
  "send_down text_addr text_offset addr 0 locs out =
     (if 0 < length locs then
        (let (ok, loc, out') = sendInstructionMessage out (locs ! 0) addr text_addr text_offset
         in (locs[0 := loc], out'))
      else (locs, out))"
| "send_down text_addr text_offset addr (Suc j) locs out =
     (if Suc j < length locs then
        (let (ok, loc, out') = sendInstructionMessage out (locs ! Suc j) addr text_addr text_offset
         in if ok then send_down text_addr text_offset addr j (locs[Suc j := loc]) out'
            else (locs[Suc j := loc], out'))
      else (locs, out))"

text \<open>The second inner loop, \<^verbatim>\<open>for (j = i + 1; !done && j < count; j++)\<close>, from \<open>j\<close> up.\<close>

function send_up ::
  "64 word \<Rightarrow> 64 word \<Rightarrow> 64 word \<Rightarrow> nat \<Rightarrow> Location list \<Rightarrow> message list
     \<Rightarrow> Location list \<times> message list" where
  "send_up text_addr text_offset addr j locs out =
     (if j < length locs then
        (let (ok, loc, out') = sendInstructionMessage out (locs ! j) addr text_addr text_offset
         in if ok then send_up text_addr text_offset addr (j + 1) (locs[j := loc]) out'
            else (locs[j := loc], out'))
      else (locs, out))"
  by pat_completeness auto
termination
  by (relation "measure (\<lambda>(text_addr, text_offset, addr, j, locs, out). length locs - j)") auto

declare send_up.simps [simp del]

text \<open>The instruction messages of the patch site at index \<open>i\<close>: both inner loops.\<close>

definition send_site ::
  "64 word \<Rightarrow> 64 word \<Rightarrow> nat \<Rightarrow> Location list \<Rightarrow> message list \<Rightarrow> Location list \<times> message list" where
  "send_site text_addr text_offset i locs out =
     (let addr = text_addr + ucast (loc_offset (locs ! i));
          (locs, out) = send_down text_addr text_offset addr i locs out
      in send_up text_addr text_offset addr (i + 1) locs out)"

text \<open>
  The patch step of a site, after its instruction messages: \<^verbatim>\<open>actions[loc.action]\<close>, then
  the plugin's patch function if the action is a plugin action and the plugin has one, nothing
  if it has none, and \<^verbatim>\<open>sendPatchMessage\<close> for every other kind of action. The result is
  what the step appends to the stream.
\<close>

definition patch_site ::
  "Action list \<Rightarrow> (string \<rightharpoonup> Plugin) \<Rightarrow> Location \<Rightarrow> 64 word \<Rightarrow> error + message list" where
  "patch_site actions ps loc offset =
     (if unat (loc_action loc) < length actions then
        (let action = actions ! unat (loc_action loc)
         in if action_kind action = ACTION_PLUGIN then
              (case action_plugin action of
                 None \<Rightarrow> Inl (Undefined_Behaviour ''action->plugin is null'')
               | Some k \<Rightarrow>
                   (case ps k of
                      None \<Rightarrow> Inl (Undefined_Behaviour ''action->plugin is dangling'')
                    | Some p \<Rightarrow>
                        (if patchFunc p \<noteq> None then Inr [Plugin_patch k offset] else Inr [])))
            else Inr [Patch (action_name action) offset])
      else Inl (Undefined_Behaviour ''actions[loc.action] is out of range''))"

text \<open>
  The reverse walk of \<^verbatim>\<open>main\<close>, \<^verbatim>\<open>for (i = count - 1; i >= 0; i--)\<close>; the argument is
  \<open>i + 1\<close>, so the walk starts at \<open>length locs\<close>. \<open>dis\<close> tells whether
  \<^verbatim>\<open>cs_disasm_iter\<close> succeeds at a file offset; when it fails the walk ends with the
  fatal error, before any message of the site is sent. The result is the locations, the stream
  as written, and the error that ended the walk, if any.
\<close>

fun patch_walk ::
  "(64 word \<Rightarrow> bool) \<Rightarrow> Action list \<Rightarrow> (string \<rightharpoonup> Plugin) \<Rightarrow> 64 word \<Rightarrow> 64 word \<Rightarrow> nat
     \<Rightarrow> Location list \<Rightarrow> message list \<Rightarrow> Location list \<times> message list \<times> error option" where
  "patch_walk dis actions ps text_addr text_offset 0 locs out = (locs, out, None)"
| "patch_walk dis actions ps text_addr text_offset (Suc i) locs out =
     (if \<not> loc_patch (locs ! i) then patch_walk dis actions ps text_addr text_offset i locs out
      else
        (let offset = ucast (loc_offset (locs ! i)) + text_offset
         in if \<not> dis offset
            then (locs, out, Some (Fatal ''failed to disassemble instruction at address 0x%lx''))
            else
              (let (locs', out') = send_site text_addr text_offset i locs out
               in case patch_site actions ps (locs' ! i) offset of
                    Inl e \<Rightarrow> (locs', out', Some e)
                  | Inr msgs \<Rightarrow>
                      patch_walk dis actions ps text_addr text_offset i locs' (out' @ msgs))))"

text \<open>The distance test of \<^verbatim>\<open>sendInstructionMessage\<close>, on the offsets of two locations.\<close>

definition within_reach :: "Location \<Rightarrow> Location \<Rightarrow> bool" where
  "within_reach site loc = (\<bar>uint (loc_offset loc) - uint (loc_offset site)\<bar> \<le> 127 + 2 + 15)"

text \<open>
  Index \<open>j\<close> is reached from the site \<open>i\<close>: every location from the site out to \<open>j\<close> is within
  the window, so neither inner loop has stopped before \<open>j\<close>.
\<close>

definition reached :: "Location list \<Rightarrow> nat \<Rightarrow> nat \<Rightarrow> bool" where
  "reached locs i j =
     list_all (\<lambda>m. within_reach (locs ! i) (locs ! m)) (if j \<le> i then [j..<Suc i] else [Suc i..<Suc j])"

text \<open>The order in which the two loops of site \<open>i\<close> visit the indices.\<close>

definition visit_order :: "Location list \<Rightarrow> nat \<Rightarrow> nat list" where
  "visit_order locs i = rev [0..<Suc i] @ [Suc i..<length locs]"

definition instruction_of :: "64 word \<Rightarrow> 64 word \<Rightarrow> Location \<Rightarrow> message" where
  "instruction_of text_addr text_offset loc =
     Instruction (text_addr + ucast (loc_offset loc)) (ucast (loc_size loc))
       (text_offset + ucast (loc_offset loc))"

fun is_Instruction :: "message \<Rightarrow> bool" where
  "is_Instruction (Instruction a s off) = True"
| "is_Instruction (Patch k off) = False"
| "is_Instruction (Plugin_patch k off) = False"

section \<open>Auxiliary notions for match values\<close>

text \<open>The payload of a match value as a number, as \<^verbatim>\<open>compare\<close> orders it within a type.\<close>

fun payload :: "(Register \<Rightarrow> int) \<Rightarrow> MatchValue \<Rightarrow> int" where
  "payload rn (MATCH_TYPE_INTEGER i) = i"
| "payload rn (MATCH_TYPE_OPERAND op) = int (OpType_num op)"
| "payload rn (MATCH_TYPE_ACCESS access) = uint access"
| "payload rn (MATCH_TYPE_REGISTER reg) = rn reg"
| "payload rn _ = 0"

text \<open>
  The order of match values as the description has it, independent of \<^verbatim>\<open>compare\<close>: by
  type tag first, by payload within a type.
\<close>

definition tag_payload_less :: "(Register \<Rightarrow> int) \<Rightarrow> MatchValue \<Rightarrow> MatchValue \<Rightarrow> bool" where
  "tag_payload_less rn a b =
     (MatchType a < MatchType b \<or> (MatchType a = MatchType b \<and> payload rn a < payload rn b))"

text \<open>
  Maximum and minimum of the keys of an index under that order: a key that no key is above,
  or below.
\<close>

definition index_max :: "(Register \<Rightarrow> int) \<Rightarrow> Index \<Rightarrow> MatchValue \<Rightarrow> bool" where
  "index_max rn vs m = (m \<in> fst ` set vs \<and> (\<forall>k\<in>fst ` set vs. \<not> tag_payload_less rn m k))"

definition index_min :: "(Register \<Rightarrow> int) \<Rightarrow> Index \<Rightarrow> MatchValue \<Rightarrow> bool" where
  "index_min rn vs m = (m \<in> fst ` set vs \<and> (\<forall>k\<in>fst ` set vs. \<not> tag_payload_less rn k m))"

text \<open>The two errors of dereferencing \<^verbatim>\<open>begin()\<close> or \<^verbatim>\<open>rbegin()\<close> of an empty index.\<close>

definition empty_deref :: "error set" where
  "empty_deref =
     {Undefined_Behaviour ''rbegin() of an empty index dereferenced'',
      Undefined_Behaviour ''begin() of an empty index dereferenced''}"

section \<open>Auxiliary notions for the patch walk\<close>

text \<open>
  The downward loop started at \<open>j\<close> gets as far as \<open>k\<close>, and the upward loop started at
  \<open>j\<close> gets as far as \<open>k\<close>: no location on the way is outside the window of \<open>S\<close>.
\<close>

definition run_down :: "Location \<Rightarrow> Location list \<Rightarrow> nat \<Rightarrow> nat \<Rightarrow> bool" where
  "run_down S locs j k = (\<forall>m. k \<le> m \<and> m \<le> j \<longrightarrow> within_reach S (locs ! m))"

definition run_up :: "Location \<Rightarrow> Location list \<Rightarrow> nat \<Rightarrow> nat \<Rightarrow> bool" where
  "run_up S locs j k = (\<forall>m. j \<le> m \<and> m \<le> k \<longrightarrow> within_reach S (locs ! m))"

text \<open>
  The invariant of the reverse walk, relative to the locations \<open>locs0\<close> it started from:
  only the \<open>emitted\<close> flags change and they are never cleared; the \<open>Instruction\<close>
  messages sent so far are pairwise different, and each belongs to a location whose flag was
  clear at the start and is set now.
\<close>

definition walk_inv :: "64 word \<Rightarrow> 64 word \<Rightarrow> Location list \<Rightarrow> Location list \<Rightarrow> message list \<Rightarrow> bool" where
  "walk_inv ta tf locs0 locs out =
     (length locs = length locs0 \<and>
      (\<forall>k<length locs0. loc_offset (locs ! k) = loc_offset (locs0 ! k) \<and>
                         loc_size (locs ! k) = loc_size (locs0 ! k) \<and>
                         (loc_emitted (locs0 ! k) \<longrightarrow> loc_emitted (locs ! k))) \<and>
      distinct (filter is_Instruction out) \<and>
      (\<forall>msg\<in>set out. is_Instruction msg \<longrightarrow>
         (\<exists>k<length locs0. msg = instruction_of ta tf (locs0 ! k) \<and>
                            \<not> loc_emitted (locs0 ! k) \<and> loc_emitted (locs ! k))))"

section \<open>Concrete inputs\<close>

text \<open>
  Four instructions at offsets 0, 100, 103 and 400 of the text section; the last three are
  patch sites.
\<close>

definition example_locs :: "Location list" where
  "example_locs =
     [\<lparr> loc_offset = 0, loc_size = 5, loc_emitted = False, loc_patch = False, loc_action = 0 \<rparr>,
      \<lparr> loc_offset = 100, loc_size = 3, loc_emitted = False, loc_patch = True, loc_action = 0 \<rparr>,
      \<lparr> loc_offset = 103, loc_size = 2, loc_emitted = False, loc_patch = True, loc_action = 1 \<rparr>,
      \<lparr> loc_offset = 400, loc_size = 1, loc_emitted = False, loc_patch = True, loc_action = 0 \<rparr>]"

text \<open>
  An environment, a \<^verbatim>\<open>callq 0x401100\<close> at address \<^verbatim>\<open>0x401000\<close>, the state at the start
  of an evaluation, a test on an attribute without field, and the rules
  \<^verbatim>\<open>-M call -A exit(1)\<close>, \<^verbatim>\<open>-M true -A passthru\<close>.
\<close>

definition example_env :: env where
  "example_env =
     \<lparr> getRegister = (\<lambda>r. if r = 35 then REGISTER_RAX else REGISTER_OTHER r),
       reg_num = (\<lambda>r. case r of REGISTER_OTHER n \<Rightarrow> int n | _ \<Rightarrow> 0),
       regex_match = (\<lambda>str re. str = re),
       cs_regs_access = (\<lambda>I. Some ([], [])),
       rand_seq = (\<lambda>n. 4) \<rparr>"

definition call_insn :: cs_insn where
  "call_insn =
     \<lparr> insn_id = X86_INS_OTHER 0, address = 0x401000, insn_size = 5,
       mnemonic = ''callq'', op_str = ''0x401100'', groups = [CS_GRP_CALL],
       operands = [\<lparr> op_type = X86_OP_IMM, op_reg = 0, op_imm = 0x401100,
                     op_mem = \<lparr> mem_segment = 0, mem_base = 0, mem_index = 0, mem_scale = 1,
                                mem_disp = 0 \<rparr>,
                     op_size = 8, op_access = 0 \<rparr>] \<rparr>"

definition state0 :: eval_state where
  "state0 = \<lparr> rand_calls = 0, record_cell = None \<rparr>"

definition attr_test :: "MatchKind \<Rightarrow> int \<Rightarrow> MatchCmp \<Rightarrow> string option \<Rightarrow> TestData \<Rightarrow> MatchTest" where
  "attr_test m idx cmp b d =
     \<lparr> test_match = m, test_idx = idx, test_field = MATCH_FIELD_NONE, test_cmp = cmp,
       test_basename = b, test_plugin = None, test_data = d \<rparr>"

definition example_rules :: "Action list" where
  "example_rules =
     [\<lparr> action_match = MATCH_OP_TEST (attr_test MATCH_CALL (-1) MATCH_CMP_NEQ_ZERO None DATA_NULL),
        action_kind = ACTION_EXIT, action_name = ''exit_1'', action_plugin = None \<rparr>,
      \<lparr> action_match = MATCH_OP_TEST (attr_test MATCH_TRUE (-1) MATCH_CMP_NEQ_ZERO None DATA_NULL),
        action_kind = ACTION_PASSTHRU, action_name = ''passthru'', action_plugin = None \<rparr>]"

text \<open>
  The rules \<^verbatim>\<open>-M call -A 'plugin[p]'\<close>, \<^verbatim>\<open>-M true -A 'plugin[q]'\<close>, where the plugin
  \<^verbatim>\<open>p\<close> exports a patch function and \<^verbatim>\<open>q\<close> exports a match function only.
\<close>

definition example_plugin_rules :: "Action list" where
  "example_plugin_rules =
     [\<lparr> action_match = MATCH_OP_TEST (attr_test MATCH_CALL (-1) MATCH_CMP_NEQ_ZERO None DATA_NULL),
        action_kind = ACTION_PLUGIN, action_name = ''plugin_p'', action_plugin = Some ''/p.so'' \<rparr>,
      \<lparr> action_match = MATCH_OP_TEST (attr_test MATCH_TRUE (-1) MATCH_CMP_NEQ_ZERO None DATA_NULL),
        action_kind = ACTION_PLUGIN, action_name = ''plugin_q'', action_plugin = Some ''/q.so'' \<rparr>]"

definition example_plugins :: "string \<rightharpoonup> Plugin" where
  "example_plugins =
     [''/p.so'' \<mapsto>
        \<lparr> filename = ''/p.so'', handle = 1, context_ptr = None, result = 0, initFunc = None,
          instrFunc = None, matchFunc = None, patchFunc = Some 7, finiFunc = None \<rparr>,
      ''/q.so'' \<mapsto>
        \<lparr> filename = ''/q.so'', handle = 2, context_ptr = None, result = 0, initFunc = None,
          instrFunc = None, matchFunc = Some 8, patchFunc = None, finiFunc = None \<rparr>]"

text \<open>
  The tokens of \<^verbatim>\<open><(%rip,%rax,2)>\<close> after the token \<^verbatim>\<open>mem64\<close>, with a cast that maps 1
  to \<^verbatim>\<open>%rax\<close> and 2 to \<^verbatim>\<open>%rip\<close>, and the operand as the caller initializes it.
\<close>

definition example_to_Register :: "int \<Rightarrow> Register" where
  "example_to_Register i = (if i = 1 then REGISTER_RAX else if i = 2 then REGISTER_RIP else REGISTER_NONE)"

definition rip_index_scale :: Parser where
  "rip_index_scale =
     \<lparr> parser_mode = ''action'',
       parser_tokens =
         [(TOKEN_CHAR CHR ''<'', 0), (TOKEN_CHAR CHR ''('', 0), (TOKEN_REGISTER, 2),
          (TOKEN_CHAR CHR '','', 0), (TOKEN_REGISTER, 1), (TOKEN_CHAR CHR '','', 0),
          (TOKEN_INTEGER, 2), (TOKEN_CHAR CHR '')'', 0), (TOKEN_CHAR CHR ''>'', 0)],
       parser_i = 0 \<rparr>"

definition memop0 :: MemOp where
  "memop0 = \<lparr> memop_seg = REGISTER_NONE, memop_disp = 0, memop_base = REGISTER_NONE,
              memop_index = REGISTER_NONE, memop_scale = 1, memop_size = 0 \<rparr>"

text \<open>A shared object at \<^verbatim>\<open>/p/m.so\<close> that exports \<^verbatim>\<open>e9_plugin_match_v1\<close> and nothing else.\<close>

definition match_only_loader :: loader where
  "match_only_loader =
     \<lparr> realpath = (\<lambda>f. if f = ''m.so'' then Some ''/p/m.so'' else None),
       dlopen = (\<lambda>p. if p = ''/p/m.so'' then Some 1 else None),
       dlsym = (\<lambda>h s. if h = 1 \<and> s = ''e9_plugin_match_v1'' then Some 7 else None) \<rparr>"

definition no_plugins :: plugin_state where
  "no_plugins = \<lparr> plugins = Map.empty, option_notify = False \<rparr>"

section \<open>Plugin loading\<close>

lemma openPlugin_first_load:
  assumes "realpath ld (if \<not> hasSuffix b ''.so'' then b @ ''.so'' else b) = Some p"
    and "plugins st p = None" and "dlopen ld p = Some h"
  shows "(\<exists>e. openPlugin ld b st = Inl e) \<longleftrightarrow>
         (dlsym ld h ''e9_plugin_init_v1'' = None \<and> dlsym ld h ''e9_plugin_instr_v1'' = None \<and>
          dlsym ld h ''e9_plugin_patch_v1'' = None \<and> dlsym ld h ''e9_plugin_fini_v1'' = None)"
  using assms by (simp add: openPlugin_def Let_def)

text \<open>
  C8. A plugin loaded for the first time is accepted when at least one of its five entry
  points is exported. The check of \<^verbatim>\<open>openPlugin\<close> leaves \<^verbatim>\<open>matchFunc\<close> out: a
  shared object that exports only \<^verbatim>\<open>e9_plugin_match_v1\<close> is refused with the message that
  it exports no plugin API function.
\<close>

theorem openPlugin_match_only_refused:
  "dlsym match_only_loader 1 ''e9_plugin_match_v1'' = Some 7 \<and>
   openPlugin match_only_loader ''m'' no_plugins =
     Inl (Fatal ''failed to load plugin; the shared object does not export any plugin API functions'')"
  by (simp add: openPlugin_def match_only_loader_def no_plugins_def hasSuffix_def)

section \<open>Memory operands with a \<^verbatim>\<open>%rip\<close> base\<close>

lemma validate_no_rip:
  "memop_scale memop = 1 \<Longrightarrow> memop_validate p memop disp64 scale64 \<noteq> Inl (rip_error p')"
  unfolding memop_validate_def rip_error_def expectToken_def unexpectedToken_def
  by (auto split: sum.splits prod.splits if_splits)

lemma scale_no_rip:
  "memop_scale memop = 1 \<Longrightarrow> memop_scale_part p memop disp64 \<noteq> Inl (rip_error p')"
  unfolding memop_scale_part_def Let_def expectToken_def unexpectedToken_def
  using validate_no_rip
  by (auto simp: rip_error_def split: sum.splits prod.splits if_splits)

lemma index_no_rip:
  "memop_scale memop = 1 \<Longrightarrow> memop_index_part c p memop disp64 scale64 \<noteq> Inl (rip_error p')"
  unfolding memop_index_part_def Let_def unexpectedToken_def
  using validate_no_rip scale_no_rip
  by (auto simp: rip_error_def split: sum.splits prod.splits if_splits)

lemma base_no_rip:
  "memop_scale memop = 1 \<Longrightarrow> memop_base_part c p memop disp64 scale64 \<noteq> Inl (rip_error p')"
  unfolding memop_base_part_def Let_def unexpectedToken_def
  using validate_no_rip index_no_rip
  by (auto simp: rip_error_def split: sum.splits prod.splits if_splits)

lemma parseMemOp_no_rip_error:
  "parseMemOp c p t memop \<noteq> Inl (rip_error p')"
  unfolding parseMemOp_def Let_def unexpectedToken_def expectToken_def
  using validate_no_rip base_no_rip
  by (auto simp: rip_error_def split: sum.splits prod.splits if_splits)

text \<open>
  C9. A memory operand whose base is \<^verbatim>\<open>%rip\<close> and whose index is present or whose scale is not 1
  is to be refused. \<^verbatim>\<open>parseMemOp\<close> tests \<^verbatim>\<open>memop.scale\<close> before it is assigned from the
  parsed scale, so the test never fires (\<open>parseMemOp_no_rip_error\<close>): the operand
  \<^verbatim>\<open>mem64<(%rip,%rax,2)>\<close> is accepted.
\<close>

theorem parseMemOp_rip_accepted:
  "parseMemOp example_to_Register rip_index_scale TOKEN_MEM64 memop0 =
     Inr (\<lparr> memop_seg = REGISTER_NONE, memop_disp = 0, memop_base = REGISTER_RIP,
             memop_index = REGISTER_RAX, memop_scale = 2, memop_size = 1 \<rparr>,
          \<lparr> parser_mode = ''action'', parser_tokens = [], parser_i = 0 \<rparr>)"
  by (simp add: parseMemOp_def memop_base_part_def memop_index_part_def memop_scale_part_def
      memop_validate_def expectToken_def getToken_def peekToken_def rip_index_scale_def memop0_def
      example_to_Register_def memop_seg_registers_def memop_base_registers_def
      memop_index_registers_def Let_def)

section \<open>The rule dispatcher\<close>

lemmas eval_defs =
  example_env_def call_insn_def state0_def attr_test_def example_rules_def
  matchAction_def matchEval_test_def matchEval_value_def is_value_kind_def is_operand_kind_def
  makeMatchValue_def plugin_val_def cmp_switch_def csv_bind_def test_values_def
  index_size_def index_find_def index_begin_def index_rbegin_def
  mv_lt_def mv_leq_def mv_gt_def mv_geq_def mv_eq_def compare.simps Let_def

lemma all_less_Suc: "(\<forall>k<Suc n. P k) \<longleftrightarrow> P 0 \<and> (\<forall>k<n. P (Suc k))"
  by (metis less_Suc_eq_0_disj)

lemma ex_less_Suc: "(\<exists>k<Suc n. P k) \<longleftrightarrow> P 0 \<or> (\<exists>k<n. P (Suc k))"
  by (metis less_Suc_eq_0_disj)

lemma match_from_spec:
  assumes "0 \<le> i"
  shows "match_from ev ps actions I offset i st = Inr (idx, st') \<longleftrightarrow>
           (idx = -1 \<and> (\<forall>k<length actions. rule_fails ev ps actions I offset st k) \<and>
            st' = rules_state ev ps actions I offset (length actions) st)
         \<or> (\<exists>n<length actions. idx = i + int n \<and>
              matchAction ev ps (actions ! n) I offset (rules_state ev ps actions I offset n st)
                = Inr (True, st') \<and>
              (\<forall>k<n. rule_fails ev ps actions I offset st k))"
  using assms
proof (induction actions arbitrary: i st)
  case Nil
  then show ?case by auto
next
  case (Cons a as)
  show ?case
  proof (cases "matchAction ev ps a I offset st")
    case (Inl e)
    have nf: "\<not> rule_fails ev ps (a # as) I offset st 0"
      by (simp add: rule_fails_def Inl)
    show ?thesis using Inl nf by (auto simp: all_less_Suc ex_less_Suc)
  next
    case (Inr r)
    obtain pass s1 where r: "r = (pass, s1)" by (cases r)
    show ?thesis
    proof (cases pass)
      case True
      have nf: "\<not> rule_fails ev ps (a # as) I offset st 0"
        by (simp add: rule_fails_def Inr r True)
      show ?thesis using Inr r True nf Cons.prems by (auto simp: all_less_Suc ex_less_Suc)
    next
      case False
      have f0: "rule_fails ev ps (a # as) I offset st 0"
        by (simp add: rule_fails_def Inr r False)
      have sh: "\<And>k. rule_fails ev ps (a # as) I offset st (Suc k) = rule_fails ev ps as I offset s1 k"
        by (simp add: rule_fails_def Inr r)
      have i1: "0 \<le> i + 1" using Cons.prems by simp
      note ih = Cons.IH [OF i1, of s1]
      have lhs: "match_from ev ps (a # as) I offset i st = match_from ev ps as I offset (i + 1) s1"
        by (simp add: Inr r False)
      have a0: "matchAction ev ps a I offset st \<noteq> Inr (True, st')" using Inr r False by simp
      have e: "\<And>n. (idx = i + int (Suc n)) = (idx = i + 1 + int n)" by auto
      have A: "(\<forall>k<length (a # as). rule_fails ev ps (a # as) I offset st k)
             = (\<forall>k<length as. rule_fails ev ps as I offset s1 k)"
        using f0 by (simp add: all_less_Suc sh)
      have B: "rules_state ev ps (a # as) I offset (length (a # as)) st
             = rules_state ev ps as I offset (length as) s1"
        by (simp add: Inr r)
      have C: "(\<exists>n<length (a # as). idx = i + int n \<and>
              matchAction ev ps ((a # as) ! n) I offset (rules_state ev ps (a # as) I offset n st)
                = Inr (True, st') \<and>
              (\<forall>k<n. rule_fails ev ps (a # as) I offset st k))
             = (\<exists>n<length as. idx = i + 1 + int n \<and>
              matchAction ev ps (as ! n) I offset (rules_state ev ps as I offset n s1)
                = Inr (True, st') \<and>
              (\<forall>k<n. rule_fails ev ps as I offset s1 k))"
        using f0 False by (simp add: ex_less_Suc all_less_Suc sh Inr r e del: of_nat_Suc)
      show ?thesis
        unfolding lhs ih A B C by (rule refl)
    qed
  qed
qed

text \<open>
  C1. \<^verbatim>\<open>match\<close> returns the index of the first rule whose match expression evaluates to true
  on the instruction, every rule before it having evaluated to false, and it returns -1 exactly
  when every rule evaluates to false. Rules are evaluated in order, each in the state the rules
  before it left (the \<^verbatim>\<open>random\<close> attribute advances the generator). So when two rules
  match, the one declared first is returned.
\<close>

theorem dispatch_first:
  "match ev ps actions I offset st = Inr (idx, st') \<longleftrightarrow>
     (idx = -1 \<and> (\<forall>k<length actions. rule_fails ev ps actions I offset st k) \<and>
      st' = rules_state ev ps actions I offset (length actions) st)
   \<or> (0 \<le> idx \<and> nat idx < length actions \<and>
      matchAction ev ps (actions ! nat idx) I offset
        (rules_state ev ps actions I offset (nat idx) st) = Inr (True, st') \<and>
      (\<forall>k<nat idx. rule_fails ev ps actions I offset st k))"
proof -
  have "(\<exists>n<length actions. idx = 0 + int n \<and>
              matchAction ev ps (actions ! n) I offset (rules_state ev ps actions I offset n st)
                = Inr (True, st') \<and>
              (\<forall>k<n. rule_fails ev ps actions I offset st k))
      = (0 \<le> idx \<and> nat idx < length actions \<and>
      matchAction ev ps (actions ! nat idx) I offset
        (rules_state ev ps actions I offset (nat idx) st) = Inr (True, st') \<and>
      (\<forall>k<nat idx. rule_fails ev ps actions I offset st k))"
    by (metis add_0 nat_int of_nat_0_le_iff int_nat_eq)
  then show ?thesis
    unfolding match_def using match_from_spec [of 0 ev ps actions I offset st idx st'] by simp
qed

theorem dispatch_first_witness:
  "match example_env Map.empty example_rules call_insn 0 state0 = Inr (0, state0) \<and>
   matchAction example_env Map.empty (example_rules ! 0) call_insn 0 state0 = Inr (True, state0) \<and>
   matchAction example_env Map.empty (example_rules ! 1) call_insn 0 state0 = Inr (True, state0)"
proof -
  have a: "matchAction example_env Map.empty (example_rules ! 0) call_insn 0 state0 = Inr (True, state0)"
    by (simp add: eval_defs)
  have b: "matchAction example_env Map.empty (example_rules ! 1) call_insn 0 state0 = Inr (True, state0)"
    by (simp add: eval_defs)
  have h: "(0::int) \<le> 0 \<and> nat 0 < length example_rules \<and>
      matchAction example_env Map.empty (example_rules ! nat 0) call_insn 0
        (rules_state example_env Map.empty example_rules call_insn 0 (nat 0) state0) = Inr (True, state0) \<and>
      (\<forall>k<nat 0. rule_fails example_env Map.empty example_rules call_insn 0 state0 k)"
    using a by (simp add: example_rules_def)
  have "match example_env Map.empty example_rules call_insn 0 state0 = Inr (0, state0)"
    by (rule dispatch_first [where idx = 0, THEN iffD2, OF disjI2, OF h])
  then show ?thesis using a b by simp
qed

section \<open>The order of match values\<close>

lemma compare_skew: "compare rn a b = - compare rn b a"
  by (cases a; cases b) (auto simp: compare.simps)

lemma compare_refl: "compare rn a a = 0"
  by (cases a) (auto simp: compare.simps)

lemma equiv_iff: "(\<not> mv_lt rn k x \<and> \<not> mv_lt rn x k) \<longleftrightarrow> compare rn k x = 0"
proof -
  have "compare rn x k = - compare rn k x" by (rule compare_skew)
  then show ?thesis unfolding mv_lt_def by linarith
qed

lemma index_find_None: "index_find rn vs x = None \<longleftrightarrow> (\<forall>k\<in>fst ` set vs. compare rn k x \<noteq> 0)"
  unfolding index_find_def equiv_iff by (auto simp: find_None_iff)

lemma OpType_num_inj: "OpType_num a = OpType_num b \<Longrightarrow> a = b"
  by (cases a; cases b) auto

lemma compare_eq_inj:
  assumes "inj rn"
  shows "compare rn a b = 0 \<longleftrightarrow> a = b"
proof
  assume "compare rn a b = 0"
  then show "a = b"
    using assms by (cases a; cases b) (auto simp: compare.simps inj_def split: if_splits dest: OpType_num_inj)
next
  assume "a = b"
  then show "compare rn a b = 0" by (simp only: compare_refl)
qed

lemma compare_lex:
  "compare rn a b =
     (if MatchType a < MatchType b \<or> (MatchType a = MatchType b \<and> payload rn a < payload rn b) then -1
      else if MatchType b < MatchType a \<or> (MatchType a = MatchType b \<and> payload rn b < payload rn a) then 1
      else 0)"
  by (cases a; cases b) (auto simp: compare.simps word_less_def)

lemma compare_cong_right: "compare rn m m' = 0 \<Longrightarrow> compare rn x m = compare rn x m'"
  unfolding compare_lex by (auto split: if_splits)

lemma compare_trans_lt: "compare rn a b < 0 \<Longrightarrow> compare rn b c < 0 \<Longrightarrow> compare rn a c < 0"
  unfolding compare_lex by (auto split: if_splits)

text \<open>
  The four operators of \<^verbatim>\<open>MatchValue\<close> are the order by type tag, then payload.
\<close>

lemma mv_lt_tag: "mv_lt rn a b = tag_payload_less rn a b"
  unfolding mv_lt_def tag_payload_less_def compare_lex by auto

lemma mv_leq_tag: "mv_leq rn a b = (\<not> tag_payload_less rn b a)"
  unfolding mv_leq_def tag_payload_less_def compare_lex by auto

lemma mv_gt_tag: "mv_gt rn a b = tag_payload_less rn b a"
  unfolding mv_gt_def tag_payload_less_def compare_lex by auto

lemma mv_geq_tag: "mv_geq rn a b = (\<not> tag_payload_less rn a b)"
  unfolding mv_geq_def tag_payload_less_def compare_lex by auto

lemma max_equiv:
  assumes "index_max rn vs m" and "index_max rn vs m'"
  shows "compare rn m m' = 0"
proof -
  have "\<not> tag_payload_less rn m m'" "\<not> tag_payload_less rn m' m"
    using assms by (auto simp: index_max_def)
  then show ?thesis unfolding tag_payload_less_def compare_lex by auto
qed

lemma min_equiv:
  assumes "index_min rn vs m" and "index_min rn vs m'"
  shows "compare rn m m' = 0"
proof -
  have "\<not> tag_payload_less rn m m'" "\<not> tag_payload_less rn m' m"
    using assms by (auto simp: index_min_def)
  then show ?thesis unfolding tag_payload_less_def compare_lex by auto
qed

lemma last_is_max:
  assumes ok: "index_ok rn vs" and ne: "vs \<noteq> []"
  shows "index_max rn vs (fst (last vs))"
proof -
  have "\<And>e. e \<in> set vs \<Longrightarrow> mv_leq rn (fst e) (fst (last vs))"
  proof -
    fix e assume "e \<in> set vs"
    then obtain i where i: "i < length vs" "e = vs ! i" by (auto simp: in_set_conv_nth)
    show "mv_leq rn (fst e) (fst (last vs))"
    proof (cases "i = length vs - 1")
      case True
      then show ?thesis using i ne by (simp add: last_conv_nth mv_leq_def compare_refl)
    next
      case False
      then have "i < length vs - 1" using i by simp
      then have "mv_lt rn (fst (vs ! i)) (fst (vs ! (length vs - 1)))"
        using ok i unfolding index_ok_def sorted_wrt_iff_nth_less by simp
      then show ?thesis using i ne by (simp add: last_conv_nth mv_leq_def mv_lt_def)
    qed
  qed
  then show ?thesis using ne by (auto simp: index_max_def mv_leq_tag)
qed

lemma hd_is_min:
  assumes ok: "index_ok rn (e0 # vs)"
  shows "index_min rn (e0 # vs) (fst e0)"
proof -
  have "\<And>e. e \<in> set vs \<Longrightarrow> mv_lt rn (fst e0) (fst e)"
    using ok by (auto simp: index_ok_def)
  then have "\<And>e. e \<in> set (e0 # vs) \<Longrightarrow> mv_leq rn (fst e0) (fst e)"
    unfolding mv_leq_def mv_lt_def
    using compare_refl [of rn "fst e0"] by (auto intro: order.strict_implies_order)
  then show ?thesis by (auto simp: index_min_def mv_leq_tag)
qed

text \<open>An index built by insertions iterates in strictly ascending key order.\<close>

lemma index_insert_set: "set (index_insert rn e vs) \<subseteq> insert e (set vs)"
  by (induction vs) auto

lemma index_insert_ok:
  assumes "index_ok rn vs"
  shows "index_ok rn (index_insert rn e vs)"
  using assms
proof (induction vs)
  case Nil
  then show ?case by (simp add: index_ok_def)
next
  case (Cons e' vs)
  have tl: "index_ok rn vs" and hd: "\<And>y. y \<in> set vs \<Longrightarrow> mv_lt rn (fst e') (fst y)"
    using Cons.prems by (auto simp: index_ok_def)
  show ?case
  proof (cases "mv_lt rn (fst e) (fst e')")
    case True
    have "\<And>y. y \<in> set vs \<Longrightarrow> mv_lt rn (fst e) (fst y)"
      using True hd compare_trans_lt unfolding mv_lt_def by blast
    then show ?thesis using True Cons.prems by (auto simp: index_ok_def)
  next
    case False
    show ?thesis
    proof (cases "mv_lt rn (fst e') (fst e)")
      case True
      have "\<And>y. y \<in> set (index_insert rn e vs) \<Longrightarrow> mv_lt rn (fst e') (fst y)"
        using index_insert_set [of rn e vs] True hd by auto
      then show ?thesis
        using False True Cons.IH [OF tl] by (auto simp: index_ok_def)
    next
      case False
      then show ?thesis using \<open>\<not> mv_lt rn (fst e) (fst e')\<close> Cons.prems by simp
    qed
  qed
qed

lemma index_ok_inserts: "index_ok rn (foldr (index_insert rn) es [])"
  by (induction es) (simp_all add: index_ok_def index_insert_ok [unfolded index_ok_def])

section \<open>Evaluation of a test\<close>

lemma value_kind_branch:
  assumes "is_value_kind (test_match test)"
  shows "matchEval_test ev ps test I offset basename rcd st =
     (if test_cmp test \<noteq> MATCH_CMP_EQ_ZERO \<and> test_cmp test \<noteq> MATCH_CMP_NEQ_ZERO \<and>
            test_cmp test \<noteq> MATCH_CMP_DEFINED then
           (case test_values test of Inl e \<Rightarrow> Inl e
            | Inr vs \<Rightarrow>
                (if index_size vs = 0 then Inr (False, st)
                 else matchEval_value ev ps test I offset basename rcd st))
         else matchEval_value ev ps test I offset basename rcd st)"
  using assms unfolding matchEval_test_def is_value_kind_def Let_def by auto

text \<open>
  The attributes that are matched as text or as register sets extract no value; a
  \<^verbatim>\<open>defined\<close> test on them is true.
\<close>

lemma defined_without_value:
  assumes "test_match test \<in> {MATCH_ASSEMBLY, MATCH_MNEMONIC, MATCH_READS, MATCH_WRITES, MATCH_REGS}"
    and "test_cmp test = MATCH_CMP_DEFINED"
  shows "matchEval ev ps (MATCH_OP_TEST test) I offset basename rcd st = Inr (True, st)"
  using assms by (auto simp: matchEval_test_def Let_def)

lemma csv_bind_other:
  "\<not> pass \<or> test_cmp test \<noteq> MATCH_CMP_EQ \<Longrightarrow>
   csv_bind rn test x pass basename rcd st = Inr (pass, st)"
  by (auto simp: csv_bind_def split: option.splits)

lemma value_run:
  assumes pv: "plugin_val ps test = Inr pv"
    and x: "makeMatchValue ev (test_match test) (test_idx test) (test_field test) I offset pv
              (rand_calls st) = (x, rnd)"
    and c: "test_cmp test \<noteq> MATCH_CMP_INVALID" "test_cmp test \<noteq> MATCH_CMP_IN"
    and nu: "x \<noteq> MATCH_TYPE_UNDEFINED"
    and sw: "cmp_switch (reg_num ev) test x = Inr pass"
  shows "matchEval_value ev ps test I offset basename rcd st =
           csv_bind (reg_num ev) test x pass basename rcd (st\<lparr> rand_calls := rnd \<rparr>)"
  unfolding matchEval_value_def using assms by (simp add: Let_def)

text \<open>
  An attribute is matched as text or as a register set, or its value is extracted, or it is
  \<^verbatim>\<open>MATCH_INVALID\<close>, for which the test is false and the extractor yields the undefined
  value.
\<close>

lemma kind_cases:
  "m \<in> {MATCH_ASSEMBLY, MATCH_MNEMONIC, MATCH_READS, MATCH_WRITES, MATCH_REGS} \<or>
   is_value_kind m \<or> m = MATCH_INVALID"
  by (cases m) (simp_all add: is_value_kind_def)

lemma invalid_kind:
  assumes "test_match test = MATCH_INVALID"
  shows "matchEval ev ps (MATCH_OP_TEST test) I offset basename rcd st = Inr (False, st)"
    and "makeMatchValue ev (test_match test) idx field I offset pv rnd0 = (MATCH_TYPE_UNDEFINED, rnd0)"
  using assms
  by (simp_all add: matchEval_test_def is_value_kind_def makeMatchValue_def is_operand_kind_def
        Let_def split: prod.splits)

lemma value_undefined:
  assumes vk: "is_value_kind (test_match test)"
    and pv: "plugin_val ps test = Inr pv"
    and vals: "test_cmp test \<noteq> MATCH_CMP_DEFINED \<and> test_cmp test \<noteq> MATCH_CMP_EQ_ZERO \<and>
               test_cmp test \<noteq> MATCH_CMP_NEQ_ZERO \<longrightarrow> (\<exists>vs. test_data test = DATA_VALUES vs)"
    and x: "makeMatchValue ev (test_match test) (test_idx test) (test_field test) I offset pv
              (rand_calls st) = (x, rnd)"
  shows "(x = MATCH_TYPE_UNDEFINED \<longrightarrow>
            (\<exists>st'. matchEval ev ps (MATCH_OP_TEST test) I offset basename rcd st = Inr (False, st')))
       \<and> (test_cmp test = MATCH_CMP_DEFINED \<longrightarrow>
            matchEval ev ps (MATCH_OP_TEST test) I offset basename rcd st
              = Inr (x \<noteq> MATCH_TYPE_UNDEFINED, st\<lparr> rand_calls := rnd \<rparr>))"
proof -
  have v: "\<And>p. x = MATCH_TYPE_UNDEFINED \<Longrightarrow> cmp_switch (reg_num ev) test x = Inr p \<Longrightarrow>
           matchEval_value ev ps test I offset basename rcd st = Inr (False, st\<lparr> rand_calls := rnd \<rparr>)"
    unfolding matchEval_value_def using pv x
    by (auto simp: Let_def csv_bind_other)
  have sw: "\<And>vs. test_data test = DATA_VALUES vs \<Longrightarrow> vs \<noteq> [] \<Longrightarrow>
              \<exists>p. cmp_switch (reg_num ev) test x = Inr p"
    unfolding cmp_switch_def test_values_def index_rbegin_def index_begin_def
    by (cases "test_cmp test") (auto split: list.splits)
  have sw3: "test_cmp test = MATCH_CMP_DEFINED \<or> test_cmp test = MATCH_CMP_EQ_ZERO \<or>
             test_cmp test = MATCH_CMP_NEQ_ZERO \<Longrightarrow> \<exists>p. cmp_switch (reg_num ev) test x = Inr p"
    unfolding cmp_switch_def by auto
  have 1: "x = MATCH_TYPE_UNDEFINED \<longrightarrow>
            (\<exists>st'. matchEval ev ps (MATCH_OP_TEST test) I offset basename rcd st = Inr (False, st'))"
  proof
    assume u: "x = MATCH_TYPE_UNDEFINED"
    show "\<exists>st'. matchEval ev ps (MATCH_OP_TEST test) I offset basename rcd st = Inr (False, st')"
    proof (cases "test_cmp test = MATCH_CMP_DEFINED \<or> test_cmp test = MATCH_CMP_EQ_ZERO \<or>
             test_cmp test = MATCH_CMP_NEQ_ZERO")
      case True
      then have "matchEval_value ev ps test I offset basename rcd st = Inr (False, st\<lparr> rand_calls := rnd \<rparr>)"
        using v [OF u] sw3 by auto
      then show ?thesis using True by (auto simp: value_kind_branch [OF vk])
    next
      case False
      then obtain vs where vs: "test_data test = DATA_VALUES vs" using vals by auto
      show ?thesis
      proof (cases "vs = []")
        case True
        then show ?thesis using False vs
          by (auto simp: value_kind_branch [OF vk] test_values_def index_size_def)
      next
        case ne: False
        have "matchEval_value ev ps test I offset basename rcd st = Inr (False, st\<lparr> rand_calls := rnd \<rparr>)"
          using v [OF u] sw [OF vs ne] by auto
        then show ?thesis using False vs ne
          by (auto simp: value_kind_branch [OF vk] test_values_def index_size_def)
      qed
    qed
  qed
  have 2: "test_cmp test = MATCH_CMP_DEFINED \<longrightarrow>
            matchEval ev ps (MATCH_OP_TEST test) I offset basename rcd st
              = Inr (x \<noteq> MATCH_TYPE_UNDEFINED, st\<lparr> rand_calls := rnd \<rparr>)"
    using pv x
    by (auto simp: value_kind_branch [OF vk] matchEval_value_def cmp_switch_def csv_bind_other Let_def)
  show ?thesis using 1 2 by blast
qed

text \<open>
  C4. For a test on an attribute other than \<^verbatim>\<open>asm\<close>, \<^verbatim>\<open>mnemonic\<close>, \<^verbatim>\<open>reads\<close>,
  \<^verbatim>\<open>writes\<close> and \<^verbatim>\<open>regs\<close>, with any comparison: when the extracted value is undefined
  the test evaluates to false; and a \<^verbatim>\<open>defined\<close> test evaluates to true exactly when the
  extracted value is not undefined. For the five attributes named, which are matched as text
  or as register sets without a call of \<^verbatim>\<open>makeMatchValue\<close>, a \<^verbatim>\<open>defined\<close> test is true.
  The test is one the parser can build: a comparison with a value list has its index.
\<close>

theorem undefined_fails:
  assumes pv: "plugin_val ps test = Inr pv"
    and vals: "test_cmp test \<noteq> MATCH_CMP_DEFINED \<and> test_cmp test \<noteq> MATCH_CMP_EQ_ZERO \<and>
               test_cmp test \<noteq> MATCH_CMP_NEQ_ZERO \<longrightarrow> (\<exists>vs. test_data test = DATA_VALUES vs)"
    and x: "makeMatchValue ev (test_match test) (test_idx test) (test_field test) I offset pv
              (rand_calls st) = (x, rnd)"
  shows "(test_match test
            \<notin> {MATCH_ASSEMBLY, MATCH_MNEMONIC, MATCH_READS, MATCH_WRITES, MATCH_REGS} \<longrightarrow>
            (x = MATCH_TYPE_UNDEFINED \<longrightarrow>
               (\<exists>st'. matchEval ev ps (MATCH_OP_TEST test) I offset basename rcd st
                        = Inr (False, st')))
          \<and> (test_cmp test = MATCH_CMP_DEFINED \<longrightarrow>
               matchEval ev ps (MATCH_OP_TEST test) I offset basename rcd st
                 = Inr (x \<noteq> MATCH_TYPE_UNDEFINED, st\<lparr> rand_calls := rnd \<rparr>)))
       \<and> (test_match test
            \<in> {MATCH_ASSEMBLY, MATCH_MNEMONIC, MATCH_READS, MATCH_WRITES, MATCH_REGS} \<and>
          test_cmp test = MATCH_CMP_DEFINED \<longrightarrow>
            matchEval ev ps (MATCH_OP_TEST test) I offset basename rcd st = Inr (True, st))"
proof (intro conjI impI)
  assume nv: "test_match test
                \<notin> {MATCH_ASSEMBLY, MATCH_MNEMONIC, MATCH_READS, MATCH_WRITES, MATCH_REGS}"
  then consider (v) "is_value_kind (test_match test)" | (i) "test_match test = MATCH_INVALID"
    using kind_cases [of "test_match test"] by blast
  then have both: "(x = MATCH_TYPE_UNDEFINED \<longrightarrow>
               (\<exists>st'. matchEval ev ps (MATCH_OP_TEST test) I offset basename rcd st
                        = Inr (False, st')))
          \<and> (test_cmp test = MATCH_CMP_DEFINED \<longrightarrow>
               matchEval ev ps (MATCH_OP_TEST test) I offset basename rcd st
                 = Inr (x \<noteq> MATCH_TYPE_UNDEFINED, st\<lparr> rand_calls := rnd \<rparr>))"
  proof cases
    case v
    show ?thesis by (rule value_undefined [OF v pv vals x])
  next
    case i
    have "x = MATCH_TYPE_UNDEFINED" "rnd = rand_calls st"
      using x invalid_kind(2) [OF i, of ev "test_idx test" "test_field test" I offset pv "rand_calls st"]
      by simp_all
    then show ?thesis using invalid_kind(1) [OF i, of ev ps I offset basename rcd st] by simp
  qed
  {
    assume "x = MATCH_TYPE_UNDEFINED"
    then show "\<exists>st'. matchEval ev ps (MATCH_OP_TEST test) I offset basename rcd st
                        = Inr (False, st')"
      using both by blast
  }
  {
    assume "test_cmp test = MATCH_CMP_DEFINED"
    then show "matchEval ev ps (MATCH_OP_TEST test) I offset basename rcd st
                 = Inr (x \<noteq> MATCH_TYPE_UNDEFINED, st\<lparr> rand_calls := rnd \<rparr>)"
      using both by blast
  }
next
  assume "test_match test
            \<in> {MATCH_ASSEMBLY, MATCH_MNEMONIC, MATCH_READS, MATCH_WRITES, MATCH_REGS} \<and>
          test_cmp test = MATCH_CMP_DEFINED"
  then show "matchEval ev ps (MATCH_OP_TEST test) I offset basename rcd st = Inr (True, st)"
    by (intro defined_without_value) simp_all
qed

theorem undefined_fails_witness:
  "makeMatchValue example_env MATCH_OP 3 MATCH_FIELD_NONE call_insn 0 0 0 = (MATCH_TYPE_UNDEFINED, 0) \<and>
   matchEval example_env Map.empty
     (MATCH_OP_TEST (attr_test MATCH_OP 3 MATCH_CMP_DEFINED None DATA_NULL))
     call_insn 0 None False state0 = Inr (False, state0) \<and>
   matchEval example_env Map.empty
     (MATCH_OP_TEST (attr_test MATCH_OP 0 MATCH_CMP_DEFINED None DATA_NULL))
     call_insn 0 None False state0 = Inr (True, state0) \<and>
   (\<exists>st'. matchEval example_env Map.empty
     (MATCH_OP_TEST (attr_test MATCH_OP 3 MATCH_CMP_EQ None
        (DATA_VALUES [(MATCH_TYPE_INTEGER 0x401100, None)])))
     call_insn 0 None False state0 = Inr (False, st')) \<and>
   matchEval example_env Map.empty
     (MATCH_OP_TEST (attr_test MATCH_REGS (-1) MATCH_CMP_DEFINED None DATA_NULL))
     call_insn 0 None False state0 = Inr (True, state0)"
proof -
  let ?t = "attr_test MATCH_OP 3 MATCH_CMP_DEFINED None DATA_NULL"
  let ?u = "attr_test MATCH_OP 0 MATCH_CMP_DEFINED None DATA_NULL"
  let ?e = "attr_test MATCH_OP 3 MATCH_CMP_EQ None
              (DATA_VALUES [(MATCH_TYPE_INTEGER 0x401100, None)])"
  let ?g = "attr_test MATCH_REGS (-1) MATCH_CMP_DEFINED None DATA_NULL"
  let ?T = "{MATCH_ASSEMBLY, MATCH_MNEMONIC, MATCH_READS, MATCH_WRITES, MATCH_REGS}"
  have nv: "test_match ?t \<notin> ?T" "test_match ?u \<notin> ?T" "test_match ?e \<notin> ?T"
    by (simp_all add: attr_test_def)
  have tx: "test_match ?g \<in> ?T \<and> test_cmp ?g = MATCH_CMP_DEFINED"
    by (simp add: attr_test_def)
  have pv: "plugin_val Map.empty ?t = Inr 0" "plugin_val Map.empty ?u = Inr 0"
    "plugin_val Map.empty ?e = Inr 0" "plugin_val Map.empty ?g = Inr 0"
    by (simp_all add: attr_test_def plugin_val_def)
  have vals: "test_cmp ?t \<noteq> MATCH_CMP_DEFINED \<and> test_cmp ?t \<noteq> MATCH_CMP_EQ_ZERO \<and>
               test_cmp ?t \<noteq> MATCH_CMP_NEQ_ZERO \<longrightarrow> (\<exists>vs. test_data ?t = DATA_VALUES vs)"
    "test_cmp ?u \<noteq> MATCH_CMP_DEFINED \<and> test_cmp ?u \<noteq> MATCH_CMP_EQ_ZERO \<and>
               test_cmp ?u \<noteq> MATCH_CMP_NEQ_ZERO \<longrightarrow> (\<exists>vs. test_data ?u = DATA_VALUES vs)"
    "test_cmp ?e \<noteq> MATCH_CMP_DEFINED \<and> test_cmp ?e \<noteq> MATCH_CMP_EQ_ZERO \<and>
               test_cmp ?e \<noteq> MATCH_CMP_NEQ_ZERO \<longrightarrow> (\<exists>vs. test_data ?e = DATA_VALUES vs)"
    "test_cmp ?g \<noteq> MATCH_CMP_DEFINED \<and> test_cmp ?g \<noteq> MATCH_CMP_EQ_ZERO \<and>
               test_cmp ?g \<noteq> MATCH_CMP_NEQ_ZERO \<longrightarrow> (\<exists>vs. test_data ?g = DATA_VALUES vs)"
    by (simp_all add: attr_test_def)
  have x: "makeMatchValue example_env (test_match ?t) (test_idx ?t) (test_field ?t) call_insn 0 0
              (rand_calls state0) = (MATCH_TYPE_UNDEFINED, 0)"
    "makeMatchValue example_env (test_match ?u) (test_idx ?u) (test_field ?u) call_insn 0 0
              (rand_calls state0) = (MATCH_TYPE_INTEGER 0x401100, 0)"
    "makeMatchValue example_env (test_match ?e) (test_idx ?e) (test_field ?e) call_insn 0 0
              (rand_calls state0) = (MATCH_TYPE_UNDEFINED, 0)"
    "makeMatchValue example_env (test_match ?g) (test_idx ?g) (test_field ?g) call_insn 0 0
              (rand_calls state0) = (MATCH_TYPE_UNDEFINED, 0)"
    by (simp_all add: eval_defs CS_AC_READ_def CS_AC_WRITE_def)
  have r: "state0\<lparr> rand_calls := 0 \<rparr> = state0" by (simp add: state0_def)
  have c: "test_cmp ?t = MATCH_CMP_DEFINED" "test_cmp ?u = MATCH_CMP_DEFINED"
    by (simp_all add: attr_test_def)
  have 1: "matchEval example_env Map.empty (MATCH_OP_TEST ?t) call_insn 0 None False state0
          = Inr (MATCH_TYPE_UNDEFINED \<noteq> MATCH_TYPE_UNDEFINED, state0\<lparr> rand_calls := 0 \<rparr>)"
    by (rule undefined_fails [OF pv(1) vals(1) x(1), THEN conjunct1, THEN mp, OF nv(1),
          THEN conjunct2, THEN mp, OF c(1)])
  have 2: "matchEval example_env Map.empty (MATCH_OP_TEST ?u) call_insn 0 None False state0
          = Inr (MATCH_TYPE_INTEGER 0x401100 \<noteq> MATCH_TYPE_UNDEFINED,
                 state0\<lparr> rand_calls := 0 \<rparr>)"
    by (rule undefined_fails [OF pv(2) vals(2) x(2), THEN conjunct1, THEN mp, OF nv(2),
          THEN conjunct2, THEN mp, OF c(2)])
  have 3: "\<exists>st'. matchEval example_env Map.empty (MATCH_OP_TEST ?e) call_insn 0 None False state0
          = Inr (False, st')"
    by (rule undefined_fails [OF pv(3) vals(3) x(3), THEN conjunct1, THEN mp, OF nv(3),
          THEN conjunct1, THEN mp]) simp
  have 4: "matchEval example_env Map.empty (MATCH_OP_TEST ?g) call_insn 0 None False state0
          = Inr (True, state0)"
    by (rule undefined_fails [OF pv(4) vals(4) x(4), THEN conjunct2, THEN mp, OF tx])
  have x0: "makeMatchValue example_env MATCH_OP 3 MATCH_FIELD_NONE call_insn 0 0 0
              = (MATCH_TYPE_UNDEFINED, 0)"
    using x(1) by (simp add: attr_test_def state0_def)
  show ?thesis using x0 1 2 3 4 by (simp add: r)
qed

text \<open>
  Counterexample to C4 without the restriction on the attribute: a \<^verbatim>\<open>defined\<close> test and
  a regular-expression test on the mnemonic are true, although \<^verbatim>\<open>makeMatchValue\<close> yields
  the undefined value for this attribute.
\<close>

theorem undefined_fails_counterexample:
  "makeMatchValue example_env MATCH_MNEMONIC (-1) MATCH_FIELD_NONE call_insn 0 0 0
     = (MATCH_TYPE_UNDEFINED, 0) \<and>
   matchEval example_env Map.empty
     (MATCH_OP_TEST (attr_test MATCH_MNEMONIC (-1) MATCH_CMP_DEFINED None DATA_NULL))
     call_insn 0 None False state0 = Inr (True, state0) \<and>
   matchEval example_env Map.empty
     (MATCH_OP_TEST (attr_test MATCH_MNEMONIC (-1) MATCH_CMP_EQ None (DATA_REGEX ''callq'')))
     call_insn 0 None False state0 = Inr (True, state0)"
  by (simp add: eval_defs makeMatchString_def test_regex_def)

text \<open>
  C5. For a \<^verbatim>\<open>!=\<close> test and an extracted value \<open>x\<close> that is not undefined: with exactly one
  value in the set the test is true exactly when no key of the set equals \<open>x\<close> under
  \<^verbatim>\<open>operator==\<close> (with distinct enumerator values: when \<open>x\<close> is not in the set); with more
  than one value it is true whatever \<open>x\<close> is.
\<close>

theorem neq_singleton:
  assumes vk: "is_value_kind (test_match test)"
    and pv: "plugin_val ps test = Inr pv"
    and d: "test_data test = DATA_VALUES vs"
    and c: "test_cmp test = MATCH_CMP_NEQ"
    and x: "makeMatchValue ev (test_match test) (test_idx test) (test_field test) I offset pv
              (rand_calls st) = (x, rnd)"
    and nu: "x \<noteq> MATCH_TYPE_UNDEFINED"
  shows "(index_size vs = 1 \<longrightarrow>
            matchEval ev ps (MATCH_OP_TEST test) I offset basename rcd st
              = Inr (\<forall>k\<in>fst ` set vs. \<not> mv_eq (reg_num ev) k x, st\<lparr> rand_calls := rnd \<rparr>))
       \<and> (index_size vs = 1 \<longrightarrow> inj (reg_num ev) \<longrightarrow>
            matchEval ev ps (MATCH_OP_TEST test) I offset basename rcd st
              = Inr (x \<notin> fst ` set vs, st\<lparr> rand_calls := rnd \<rparr>))
       \<and> (1 < index_size vs \<longrightarrow>
            matchEval ev ps (MATCH_OP_TEST test) I offset basename rcd st
              = Inr (True, st\<lparr> rand_calls := rnd \<rparr>))"
proof -
  let ?p = "if index_size vs = 1 then index_find (reg_num ev) vs x = None else True"
  have sw: "cmp_switch (reg_num ev) test x = Inr ?p"
    by (simp add: cmp_switch_def c test_values_def d)
  have run: "index_size vs \<noteq> 0 \<Longrightarrow>
             matchEval ev ps (MATCH_OP_TEST test) I offset basename rcd st
               = Inr (?p, st\<lparr> rand_calls := rnd \<rparr>)"
    using value_run [OF pv x _ _ nu sw] c
    by (simp add: value_kind_branch [OF vk] test_values_def d csv_bind_other)
  have 1: "index_size vs = 1 \<longrightarrow>
            matchEval ev ps (MATCH_OP_TEST test) I offset basename rcd st
              = Inr (\<forall>k\<in>fst ` set vs. \<not> mv_eq (reg_num ev) k x, st\<lparr> rand_calls := rnd \<rparr>)"
    using run by (simp add: index_find_None mv_eq_def)
  have 2: "index_size vs = 1 \<longrightarrow> inj (reg_num ev) \<longrightarrow>
            matchEval ev ps (MATCH_OP_TEST test) I offset basename rcd st
              = Inr (x \<notin> fst ` set vs, st\<lparr> rand_calls := rnd \<rparr>)"
  proof (intro impI)
    assume s: "index_size vs = 1" and i: "inj (reg_num ev)"
    have "(\<forall>k\<in>fst ` set vs. compare (reg_num ev) k x \<noteq> 0) = (x \<notin> fst ` set vs)"
      unfolding compare_eq_inj [OF i] by blast
    then show "matchEval ev ps (MATCH_OP_TEST test) I offset basename rcd st
              = Inr (x \<notin> fst ` set vs, st\<lparr> rand_calls := rnd \<rparr>)"
      using run s by (simp add: index_find_None)
  qed
  have 3: "1 < index_size vs \<longrightarrow>
            matchEval ev ps (MATCH_OP_TEST test) I offset basename rcd st
              = Inr (True, st\<lparr> rand_calls := rnd \<rparr>)"
    using run by simp
  show ?thesis using 1 2 3 by blast
qed

theorem neq_singleton_witness:
  "matchEval example_env Map.empty
     (MATCH_OP_TEST (attr_test MATCH_OFFSET (-1) MATCH_CMP_NEQ None
        (DATA_VALUES [(MATCH_TYPE_INTEGER 16, None)]))) call_insn 16 None False state0
     = Inr (False, state0) \<and>
   matchEval example_env Map.empty
     (MATCH_OP_TEST (attr_test MATCH_OFFSET (-1) MATCH_CMP_NEQ None
        (DATA_VALUES [(MATCH_TYPE_INTEGER 16, None), (MATCH_TYPE_INTEGER 32, None)])))
     call_insn 16 None False state0
     = Inr (True, state0)"
proof -
  let ?v1 = "[(MATCH_TYPE_INTEGER 16, None)] :: Index"
  let ?v2 = "[(MATCH_TYPE_INTEGER 16, None), (MATCH_TYPE_INTEGER 32, None)] :: Index"
  let ?t1 = "attr_test MATCH_OFFSET (-1) MATCH_CMP_NEQ None (DATA_VALUES ?v1)"
  let ?t2 = "attr_test MATCH_OFFSET (-1) MATCH_CMP_NEQ None (DATA_VALUES ?v2)"
  have r: "state0\<lparr> rand_calls := 0 \<rparr> = state0" by (simp add: state0_def)
  have vk: "is_value_kind (test_match ?t1)" "is_value_kind (test_match ?t2)"
    by (simp_all add: attr_test_def is_value_kind_def)
  have pv: "plugin_val Map.empty ?t1 = Inr 0" "plugin_val Map.empty ?t2 = Inr 0"
    by (simp_all add: attr_test_def plugin_val_def)
  have d: "test_data ?t1 = DATA_VALUES ?v1" "test_data ?t2 = DATA_VALUES ?v2"
    by (simp_all add: attr_test_def)
  have c: "test_cmp ?t1 = MATCH_CMP_NEQ" "test_cmp ?t2 = MATCH_CMP_NEQ"
    by (simp_all add: attr_test_def)
  have x: "makeMatchValue example_env (test_match ?t1) (test_idx ?t1) (test_field ?t1) call_insn 16 0
              (rand_calls state0) = (MATCH_TYPE_INTEGER 16, 0)"
    "makeMatchValue example_env (test_match ?t2) (test_idx ?t2) (test_field ?t2) call_insn 16 0
              (rand_calls state0) = (MATCH_TYPE_INTEGER 16, 0)"
    by (simp_all add: eval_defs)
  have nu: "MATCH_TYPE_INTEGER 16 \<noteq> MATCH_TYPE_UNDEFINED" by simp
  have s1: "index_size ?v1 = 1" and s2: "1 < index_size ?v2" by (simp_all add: index_size_def)
  have 1: "matchEval example_env Map.empty (MATCH_OP_TEST ?t1) call_insn 16 None False state0
             = Inr (\<forall>k\<in>fst ` set ?v1. \<not> mv_eq (reg_num example_env) k (MATCH_TYPE_INTEGER 16),
                    state0\<lparr> rand_calls := 0 \<rparr>)"
    by (rule neq_singleton [OF vk(1) pv(1) d(1) c(1) x(1) nu, THEN conjunct1, THEN mp, OF s1])
  have 2: "matchEval example_env Map.empty (MATCH_OP_TEST ?t2) call_insn 16 None False state0
             = Inr (True, state0\<lparr> rand_calls := 0 \<rparr>)"
    by (rule neq_singleton [OF vk(2) pv(2) d(2) c(2) x(2) nu, THEN conjunct2, THEN conjunct2,
          THEN mp, OF s2])
  show ?thesis using 1 2 by (simp add: r mv_eq_def compare.simps)
qed

text \<open>
  C6. For a test with a non-empty value set and an extracted value \<open>x\<close> that is not undefined,
  \<^verbatim>\<open><\<close> is true exactly when \<open>x\<close> is below the maximum of the set, \<^verbatim>\<open><=\<close> exactly when
  \<open>x\<close> is not above the maximum, \<^verbatim>\<open>>\<close> exactly when \<open>x\<close> is above the minimum and
  \<^verbatim>\<open>>=\<close> exactly when \<open>x\<close> is not below the minimum; below, above, maximum and minimum
  are those of the order by type tag first, then payload.
\<close>

theorem ordered_comparisons:
  assumes vk: "is_value_kind (test_match test)"
    and pv: "plugin_val ps test = Inr pv"
    and d: "test_data test = DATA_VALUES vs"
    and ne: "vs \<noteq> []"
    and ok: "index_ok (reg_num ev) vs"
    and x: "makeMatchValue ev (test_match test) (test_idx test) (test_field test) I offset pv
              (rand_calls st) = (x, rnd)"
    and nu: "x \<noteq> MATCH_TYPE_UNDEFINED"
    and mx: "index_max (reg_num ev) vs mx"
    and mn: "index_min (reg_num ev) vs mn"
  shows "(test_cmp test = MATCH_CMP_LT \<longrightarrow>
            matchEval ev ps (MATCH_OP_TEST test) I offset basename rcd st
              = Inr (tag_payload_less (reg_num ev) x mx, st\<lparr> rand_calls := rnd \<rparr>))
       \<and> (test_cmp test = MATCH_CMP_LEQ \<longrightarrow>
            matchEval ev ps (MATCH_OP_TEST test) I offset basename rcd st
              = Inr (\<not> tag_payload_less (reg_num ev) mx x, st\<lparr> rand_calls := rnd \<rparr>))
       \<and> (test_cmp test = MATCH_CMP_GT \<longrightarrow>
            matchEval ev ps (MATCH_OP_TEST test) I offset basename rcd st
              = Inr (tag_payload_less (reg_num ev) mn x, st\<lparr> rand_calls := rnd \<rparr>))
       \<and> (test_cmp test = MATCH_CMP_GEQ \<longrightarrow>
            matchEval ev ps (MATCH_OP_TEST test) I offset basename rcd st
              = Inr (\<not> tag_payload_less (reg_num ev) x mn, st\<lparr> rand_calls := rnd \<rparr>))"
proof -
  let ?rn = "reg_num ev"
  obtain e0 es where vs: "vs = e0 # es" using ne by (cases vs) auto
  have cmx: "compare ?rn x (fst (last vs)) = compare ?rn x mx"
    by (rule compare_cong_right [OF max_equiv [OF last_is_max [OF ok ne] mx]])
  have cmn: "compare ?rn x (fst e0) = compare ?rn x mn"
    by (rule compare_cong_right [OF min_equiv [OF hd_is_min mn [unfolded vs]]])
      (use ok vs in simp)
  have sz: "index_size vs \<noteq> 0" using ne by (simp add: index_size_def)
  have run: "\<And>pass. cmp_switch ?rn test x = Inr pass \<Longrightarrow> test_cmp test \<noteq> MATCH_CMP_EQ \<Longrightarrow>
             test_cmp test \<noteq> MATCH_CMP_INVALID \<Longrightarrow> test_cmp test \<noteq> MATCH_CMP_IN \<Longrightarrow>
             test_cmp test \<noteq> MATCH_CMP_DEFINED \<Longrightarrow> test_cmp test \<noteq> MATCH_CMP_EQ_ZERO \<Longrightarrow>
             test_cmp test \<noteq> MATCH_CMP_NEQ_ZERO \<Longrightarrow>
             matchEval ev ps (MATCH_OP_TEST test) I offset basename rcd st
               = Inr (pass, st\<lparr> rand_calls := rnd \<rparr>)"
    using sz by (simp add: value_kind_branch [OF vk] test_values_def d csv_bind_other
        value_run [OF pv x _ _ nu])
  have 1: "test_cmp test = MATCH_CMP_LT \<longrightarrow>
            matchEval ev ps (MATCH_OP_TEST test) I offset basename rcd st
              = Inr (tag_payload_less ?rn x mx, st\<lparr> rand_calls := rnd \<rparr>)"
  proof
    assume c: "test_cmp test = MATCH_CMP_LT"
    have "cmp_switch ?rn test x = Inr (mv_lt ?rn x mx)"
      using ne cmx by (simp add: cmp_switch_def c test_values_def d index_rbegin_def mv_lt_def)
    then have "cmp_switch ?rn test x = Inr (tag_payload_less ?rn x mx)"
      by (simp only: mv_lt_tag)
    from run [OF this] c show "matchEval ev ps (MATCH_OP_TEST test) I offset basename rcd st
              = Inr (tag_payload_less ?rn x mx, st\<lparr> rand_calls := rnd \<rparr>)" by simp
  qed
  have 2: "test_cmp test = MATCH_CMP_LEQ \<longrightarrow>
            matchEval ev ps (MATCH_OP_TEST test) I offset basename rcd st
              = Inr (\<not> tag_payload_less ?rn mx x, st\<lparr> rand_calls := rnd \<rparr>)"
  proof
    assume c: "test_cmp test = MATCH_CMP_LEQ"
    have "cmp_switch ?rn test x = Inr (mv_leq ?rn x mx)"
      using ne cmx by (simp add: cmp_switch_def c test_values_def d index_rbegin_def mv_leq_def)
    then have "cmp_switch ?rn test x = Inr (\<not> tag_payload_less ?rn mx x)"
      by (simp only: mv_leq_tag)
    from run [OF this] c show "matchEval ev ps (MATCH_OP_TEST test) I offset basename rcd st
              = Inr (\<not> tag_payload_less ?rn mx x, st\<lparr> rand_calls := rnd \<rparr>)" by simp
  qed
  have 3: "test_cmp test = MATCH_CMP_GT \<longrightarrow>
            matchEval ev ps (MATCH_OP_TEST test) I offset basename rcd st
              = Inr (tag_payload_less ?rn mn x, st\<lparr> rand_calls := rnd \<rparr>)"
  proof
    assume c: "test_cmp test = MATCH_CMP_GT"
    have "cmp_switch ?rn test x = Inr (mv_gt ?rn x mn)"
      using cmn by (simp add: cmp_switch_def c test_values_def d index_begin_def mv_gt_def vs)
    then have "cmp_switch ?rn test x = Inr (tag_payload_less ?rn mn x)"
      by (simp only: mv_gt_tag)
    from run [OF this] c show "matchEval ev ps (MATCH_OP_TEST test) I offset basename rcd st
              = Inr (tag_payload_less ?rn mn x, st\<lparr> rand_calls := rnd \<rparr>)" by simp
  qed
  have 4: "test_cmp test = MATCH_CMP_GEQ \<longrightarrow>
            matchEval ev ps (MATCH_OP_TEST test) I offset basename rcd st
              = Inr (\<not> tag_payload_less ?rn x mn, st\<lparr> rand_calls := rnd \<rparr>)"
  proof
    assume c: "test_cmp test = MATCH_CMP_GEQ"
    have "cmp_switch ?rn test x = Inr (mv_geq ?rn x mn)"
      using cmn by (simp add: cmp_switch_def c test_values_def d index_begin_def mv_geq_def vs)
    then have "cmp_switch ?rn test x = Inr (\<not> tag_payload_less ?rn x mn)"
      by (simp only: mv_geq_tag)
    from run [OF this] c show "matchEval ev ps (MATCH_OP_TEST test) I offset basename rcd st
              = Inr (\<not> tag_payload_less ?rn x mn, st\<lparr> rand_calls := rnd \<rparr>)" by simp
  qed
  show ?thesis using 1 2 3 4 by blast
qed

theorem ordered_comparisons_witness:
  "index_ok (reg_num example_env) [(MATCH_TYPE_INTEGER 10, None), (MATCH_TYPE_INTEGER 20, None)] \<and>
   index_max (reg_num example_env) [(MATCH_TYPE_INTEGER 10, None), (MATCH_TYPE_INTEGER 20, None)]
     (MATCH_TYPE_INTEGER 20) \<and>
   index_min (reg_num example_env) [(MATCH_TYPE_INTEGER 10, None), (MATCH_TYPE_INTEGER 20, None)]
     (MATCH_TYPE_INTEGER 10) \<and>
   matchEval example_env Map.empty
     (MATCH_OP_TEST (attr_test MATCH_OFFSET (-1) MATCH_CMP_LT None
        (DATA_VALUES [(MATCH_TYPE_INTEGER 10, None), (MATCH_TYPE_INTEGER 20, None)])))
     call_insn 15 None False state0 = Inr (True, state0) \<and>
   matchEval example_env Map.empty
     (MATCH_OP_TEST (attr_test MATCH_OFFSET (-1) MATCH_CMP_LT None
        (DATA_VALUES [(MATCH_TYPE_INTEGER 10, None), (MATCH_TYPE_INTEGER 20, None)])))
     call_insn 20 None False state0 = Inr (False, state0) \<and>
   matchEval example_env Map.empty
     (MATCH_OP_TEST (attr_test MATCH_OFFSET (-1) MATCH_CMP_LEQ None
        (DATA_VALUES [(MATCH_TYPE_INTEGER 10, None), (MATCH_TYPE_INTEGER 20, None)])))
     call_insn 20 None False state0 = Inr (True, state0) \<and>
   matchEval example_env Map.empty
     (MATCH_OP_TEST (attr_test MATCH_OFFSET (-1) MATCH_CMP_LEQ None
        (DATA_VALUES [(MATCH_TYPE_INTEGER 10, None), (MATCH_TYPE_INTEGER 20, None)])))
     call_insn 21 None False state0 = Inr (False, state0) \<and>
   matchEval example_env Map.empty
     (MATCH_OP_TEST (attr_test MATCH_OFFSET (-1) MATCH_CMP_GT None
        (DATA_VALUES [(MATCH_TYPE_INTEGER 10, None), (MATCH_TYPE_INTEGER 20, None)])))
     call_insn 11 None False state0 = Inr (True, state0) \<and>
   matchEval example_env Map.empty
     (MATCH_OP_TEST (attr_test MATCH_OFFSET (-1) MATCH_CMP_GT None
        (DATA_VALUES [(MATCH_TYPE_INTEGER 10, None), (MATCH_TYPE_INTEGER 20, None)])))
     call_insn 10 None False state0 = Inr (False, state0) \<and>
   matchEval example_env Map.empty
     (MATCH_OP_TEST (attr_test MATCH_OFFSET (-1) MATCH_CMP_GEQ None
        (DATA_VALUES [(MATCH_TYPE_INTEGER 10, None), (MATCH_TYPE_INTEGER 20, None)])))
     call_insn 10 None False state0 = Inr (True, state0) \<and>
   matchEval example_env Map.empty
     (MATCH_OP_TEST (attr_test MATCH_OFFSET (-1) MATCH_CMP_GEQ None
        (DATA_VALUES [(MATCH_TYPE_INTEGER 10, None), (MATCH_TYPE_INTEGER 20, None)])))
     call_insn 9 None False state0 = Inr (False, state0)"
proof -
  let ?rn = "reg_num example_env"
  let ?vs = "[(MATCH_TYPE_INTEGER 10, None), (MATCH_TYPE_INTEGER 20, None)] :: Index"
  let ?t = "\<lambda>c. attr_test MATCH_OFFSET (-1) c None (DATA_VALUES ?vs)"
  have r: "state0\<lparr> rand_calls := 0 \<rparr> = state0" by (simp add: state0_def)
  have ok: "index_ok ?rn ?vs"
    by (simp add: index_ok_def mv_lt_def compare.simps)
  have mx: "index_max ?rn ?vs (MATCH_TYPE_INTEGER 20)"
    by (simp add: index_max_def tag_payload_less_def)
  have mn: "index_min ?rn ?vs (MATCH_TYPE_INTEGER 10)"
    by (simp add: index_min_def tag_payload_less_def)
  have ne: "?vs \<noteq> []" by simp
  have vk: "\<And>c. is_value_kind (test_match (?t c))"
    by (simp add: attr_test_def is_value_kind_def)
  have pv: "\<And>c. plugin_val Map.empty (?t c) = Inr 0"
    by (simp add: attr_test_def plugin_val_def)
  have d: "\<And>c. test_data (?t c) = DATA_VALUES ?vs"
    by (simp add: attr_test_def)
  have c: "\<And>c. test_cmp (?t c) = c"
    by (simp add: attr_test_def)
  have x: "\<And>c off. makeMatchValue example_env (test_match (?t c)) (test_idx (?t c))
              (test_field (?t c)) call_insn off 0 (rand_calls state0) = (MATCH_TYPE_INTEGER off, 0)"
    by (simp add: eval_defs)
  have nu: "\<And>off. MATCH_TYPE_INTEGER off \<noteq> MATCH_TYPE_UNDEFINED"
    by simp
  have lt: "\<And>off. matchEval example_env Map.empty (MATCH_OP_TEST (?t MATCH_CMP_LT)) call_insn off
               None False state0
             = Inr (tag_payload_less ?rn (MATCH_TYPE_INTEGER off) (MATCH_TYPE_INTEGER 20),
                    state0\<lparr> rand_calls := 0 \<rparr>)"
    by (rule ordered_comparisons [OF vk pv d ne ok x nu mx mn, THEN conjunct1, THEN mp, OF c])
  have leq: "\<And>off. matchEval example_env Map.empty (MATCH_OP_TEST (?t MATCH_CMP_LEQ)) call_insn off
               None False state0
             = Inr (\<not> tag_payload_less ?rn (MATCH_TYPE_INTEGER 20) (MATCH_TYPE_INTEGER off),
                    state0\<lparr> rand_calls := 0 \<rparr>)"
    by (rule ordered_comparisons [OF vk pv d ne ok x nu mx mn, THEN conjunct2, THEN conjunct1,
          THEN mp, OF c])
  have gt: "\<And>off. matchEval example_env Map.empty (MATCH_OP_TEST (?t MATCH_CMP_GT)) call_insn off
               None False state0
             = Inr (tag_payload_less ?rn (MATCH_TYPE_INTEGER 10) (MATCH_TYPE_INTEGER off),
                    state0\<lparr> rand_calls := 0 \<rparr>)"
    by (rule ordered_comparisons [OF vk pv d ne ok x nu mx mn, THEN conjunct2, THEN conjunct2,
          THEN conjunct1, THEN mp, OF c])
  have geq: "\<And>off. matchEval example_env Map.empty (MATCH_OP_TEST (?t MATCH_CMP_GEQ)) call_insn off
               None False state0
             = Inr (\<not> tag_payload_less ?rn (MATCH_TYPE_INTEGER off) (MATCH_TYPE_INTEGER 10),
                    state0\<lparr> rand_calls := 0 \<rparr>)"
    by (rule ordered_comparisons [OF vk pv d ne ok x nu mx mn, THEN conjunct2, THEN conjunct2,
          THEN conjunct2, THEN mp, OF c])
  show ?thesis
    using ok mx mn lt [of 15] lt [of 20] leq [of 20] leq [of 21] gt [of 11] gt [of 10]
      geq [of 10] geq [of 9]
    by (simp add: r tag_payload_less_def)
qed

lemma cmp_switch_deref:
  assumes "cmp_switch rn test x = Inl e" and "e \<in> empty_deref"
  shows "test_values test = Inr []"
  using assms
  unfolding cmp_switch_def test_values_def index_rbegin_def index_begin_def empty_deref_def
  by (cases "test_cmp test"; cases "test_data test") (auto split: if_splits list.splits)

lemma cmp_switch_special:
  assumes "test_cmp test = MATCH_CMP_DEFINED \<or> test_cmp test = MATCH_CMP_EQ_ZERO \<or>
           test_cmp test = MATCH_CMP_NEQ_ZERO"
  shows "\<exists>p. cmp_switch rn test x = Inr p"
  using assms unfolding cmp_switch_def by auto

lemma csv_bind_deref: "csv_bind rn test x pass basename rcd st = Inl e \<Longrightarrow> e \<notin> empty_deref"
  unfolding csv_bind_def test_values_def empty_deref_def
  by (auto split: option.splits if_splits sum.splits TestData.splits)

lemma plugin_val_deref: "plugin_val ps test = Inl e \<Longrightarrow> e \<notin> empty_deref"
  unfolding plugin_val_def empty_deref_def
  by (auto split: option.splits if_splits)

lemma value_deref:
  assumes "matchEval_value ev ps test I offset basename rcd st = Inl e" and "e \<in> empty_deref"
  shows "test_values test = Inr [] \<and> test_cmp test \<noteq> MATCH_CMP_DEFINED \<and>
         test_cmp test \<noteq> MATCH_CMP_EQ_ZERO \<and> test_cmp test \<noteq> MATCH_CMP_NEQ_ZERO"
proof -
  obtain pv where pv: "plugin_val ps test = Inr pv"
    using assms plugin_val_deref [of ps test]
    by (cases "plugin_val ps test") (auto simp: matchEval_value_def)
  obtain x rnd where x: "makeMatchValue ev (test_match test) (test_idx test) (test_field test)
      I offset pv (rand_calls st) = (x, rnd)"
    by (cases "makeMatchValue ev (test_match test) (test_idx test) (test_field test)
      I offset pv (rand_calls st)")
  have "cmp_switch (reg_num ev) test x = Inl e"
    using assms pv x csv_bind_deref
    by (auto simp: matchEval_value_def Let_def split: if_splits sum.splits)
  then show ?thesis
    using cmp_switch_deref [OF _ assms(2)] cmp_switch_special [of test "reg_num ev" x] by auto
qed

lemma test_deref: "matchEval_test ev ps test I offset basename rcd st = Inl e \<Longrightarrow> e \<notin> empty_deref"
proof
  assume r: "matchEval_test ev ps test I offset basename rcd st = Inl e" and e: "e \<in> empty_deref"
  show False
  proof (cases "is_value_kind (test_match test)")
    case True
    have "matchEval_value ev ps test I offset basename rcd st = Inl e \<or>
          test_values test = Inl e"
      using r unfolding value_kind_branch [OF True]
      by (auto split: if_splits sum.splits)
    then show False
    proof
      assume v: "matchEval_value ev ps test I offset basename rcd st = Inl e"
      have z: "test_values test = Inr []" "test_cmp test \<noteq> MATCH_CMP_DEFINED"
        "test_cmp test \<noteq> MATCH_CMP_EQ_ZERO" "test_cmp test \<noteq> MATCH_CMP_NEQ_ZERO"
        using value_deref [OF v e] by auto
      then show False using r unfolding value_kind_branch [OF True]
        by (simp add: index_size_def)
    next
      assume "test_values test = Inl e"
      then show False using e unfolding test_values_def empty_deref_def
        by (auto split: TestData.splits)
    qed
  next
    case False
    then show False using r e
      unfolding matchEval_test_def Let_def makeMatchString_def test_regex_def test_regs_def
        empty_deref_def
      by (auto split: if_splits sum.splits option.splits TestData.splits prod.splits)
  qed
qed

lemma matchEval_deref:
  "matchEval ev ps expr I offset basename rcd st = Inl e \<Longrightarrow> e \<notin> empty_deref"
proof (induction expr arbitrary: basename rcd st)
  case MATCH_EXPR_NULL
  then show ?case by simp
next
  case (MATCH_OP_NOT a)
  then show ?case by (auto split: sum.splits)
next
  case (MATCH_OP_AND a b)
  then show ?case by (auto split: sum.splits if_splits)
next
  case (MATCH_OP_OR a b)
  then show ?case by (auto split: sum.splits if_splits)
next
  case (MATCH_OP_TEST t)
  then show ?case using test_deref by simp
qed

text \<open>
  C10. A test with comparison \<^verbatim>\<open>=\<close>, \<^verbatim>\<open>!=\<close>, \<^verbatim>\<open><\<close>, \<^verbatim>\<open><=\<close>, \<^verbatim>\<open>>\<close> or \<^verbatim>\<open>>=\<close>
  on an empty value set evaluates to false and leaves the state as it is; and no evaluation of
  any expression ever dereferences \<^verbatim>\<open>begin()\<close> or \<^verbatim>\<open>rbegin()\<close> of an empty index.
\<close>

theorem empty_set_false:
  assumes vk: "is_value_kind (test_match test)"
    and c: "test_cmp test \<in> {MATCH_CMP_EQ, MATCH_CMP_NEQ, MATCH_CMP_LT, MATCH_CMP_LEQ,
                               MATCH_CMP_GT, MATCH_CMP_GEQ}"
    and d: "test_data test = DATA_VALUES []"
  shows "matchEval ev ps (MATCH_OP_TEST test) I offset basename rcd st = Inr (False, st)
       \<and> (\<forall>expr b r s e. matchEval ev ps expr I offset b r s = Inl e \<longrightarrow> e \<notin> empty_deref)"
proof -
  have "matchEval ev ps (MATCH_OP_TEST test) I offset basename rcd st = Inr (False, st)"
    using c by (auto simp: value_kind_branch [OF vk] test_values_def d index_size_def)
  then show ?thesis using matchEval_deref by blast
qed

theorem empty_set_false_witness:
  "matchEval example_env Map.empty
     (MATCH_OP_TEST (attr_test MATCH_OFFSET (-1) MATCH_CMP_LT (Some ''sites'') (DATA_VALUES [])))
     call_insn 15 None False state0 = Inr (False, state0)"
proof -
  let ?t = "attr_test MATCH_OFFSET (-1) MATCH_CMP_LT (Some ''sites'') (DATA_VALUES [])"
  have vk: "is_value_kind (test_match ?t)" by (simp add: attr_test_def is_value_kind_def)
  have c: "test_cmp ?t \<in> {MATCH_CMP_EQ, MATCH_CMP_NEQ, MATCH_CMP_LT, MATCH_CMP_LEQ,
                               MATCH_CMP_GT, MATCH_CMP_GEQ}" by (simp add: attr_test_def)
  have d: "test_data ?t = DATA_VALUES []" by (simp add: attr_test_def)
  show ?thesis by (rule empty_set_false [OF vk c d, THEN conjunct1])
qed

lemma test_cell_kept:
  assumes "matchEval_test ev ps test I offset basename rcd st = Inr (p, st')"
    and "record_cell st = Some r"
  shows "record_cell st' = Some r"
proof (cases "is_value_kind (test_match test)")
  case True
  have v: "matchEval_value ev ps test I offset basename rcd st = Inr (p, st') \<Longrightarrow>
           record_cell st' = Some r"
    using assms(2) unfolding matchEval_value_def csv_bind_def Let_def
    by (auto split: sum.splits prod.splits if_splits option.splits)
  show ?thesis
    using assms v unfolding value_kind_branch [OF True]
    by (auto split: if_splits sum.splits)
next
  case False
  then show ?thesis using assms
    unfolding matchEval_test_def Let_def
    by (auto split: if_splits sum.splits option.splits prod.splits)
qed

lemma cell_kept:
  "matchEval ev ps expr I offset basename rcd st = Inr (p, st') \<Longrightarrow>
   record_cell st = Some r \<Longrightarrow> record_cell st' = Some r"
proof (induction expr arbitrary: basename rcd st p st')
  case MATCH_EXPR_NULL
  then show ?case by simp
next
  case (MATCH_OP_NOT a)
  then show ?case by (fastforce split: sum.splits)
next
  case (MATCH_OP_AND a b)
  then show ?case by (fastforce split: sum.splits if_splits)
next
  case (MATCH_OP_OR a b)
  then show ?case by (fastforce split: sum.splits if_splits)
next
  case (MATCH_OP_TEST t)
  then show ?case using test_cell_kept by simp
qed

text \<open>
  C7. In an evaluation a record that is bound stays bound: whatever the expression, if the
  evaluation returns, the cell holds the record it held before. And a successful \<^verbatim>\<open>=\<close> test
  through the tracked basename that finds an entry with another record than the bound one raises
  the fatal ambiguity error; it binds the entry's record when none was bound.
\<close>

theorem csv_binding:
  "(matchEval ev ps expr I offset basename rcd st = Inr (p, st') \<and> record_cell st = Some r
      \<longrightarrow> record_cell st' = Some r)
   \<and> (is_value_kind (test_match test) \<and> test_cmp test = MATCH_CMP_EQ \<and>
      test_data test = DATA_VALUES vs \<and> test_basename test = Some b \<and>
      plugin_val ps test = Inr pv \<and>
      makeMatchValue ev (test_match test) (test_idx test) (test_field test) I offset pv
        (rand_calls st) = (x, rnd) \<and>
      x \<noteq> MATCH_TYPE_UNDEFINED \<and> index_find (reg_num ev) vs x = Some i
      \<longrightarrow> matchEval ev ps (MATCH_OP_TEST test) I offset (Some b) True st =
            (if record_cell st \<noteq> None \<and> snd i \<noteq> record_cell st
             then Inl (Fatal ''failed to lookup value from file; matching is ambiguous'')
             else Inr (True, st\<lparr> rand_calls := rnd, record_cell := snd i \<rparr>)))"
proof -
  have 2: "matchEval ev ps (MATCH_OP_TEST test) I offset (Some b) True st =
            (if record_cell st \<noteq> None \<and> snd i \<noteq> record_cell st
             then Inl (Fatal ''failed to lookup value from file; matching is ambiguous'')
             else Inr (True, st\<lparr> rand_calls := rnd, record_cell := snd i \<rparr>))"
    if vk: "is_value_kind (test_match test)" and c: "test_cmp test = MATCH_CMP_EQ"
      and d: "test_data test = DATA_VALUES vs" and tb: "test_basename test = Some b"
      and pv: "plugin_val ps test = Inr pv"
      and x: "makeMatchValue ev (test_match test) (test_idx test) (test_field test) I offset pv
        (rand_calls st) = (x, rnd)"
      and nu: "x \<noteq> MATCH_TYPE_UNDEFINED" and f: "index_find (reg_num ev) vs x = Some i"
  proof -
    have ne: "index_size vs \<noteq> 0"
      using f by (auto simp: index_find_def index_size_def)
    have sw: "cmp_switch (reg_num ev) test x = Inr True"
      by (simp add: cmp_switch_def c test_values_def d f)
    show ?thesis
      using ne c
      by (simp add: value_kind_branch [OF vk] test_values_def d
          value_run [OF pv x _ _ nu sw] csv_bind_def tb f)
  qed
  show ?thesis using cell_kept 2 by blast
qed

theorem csv_binding_witness:
  "matchEval example_env Map.empty
     (MATCH_OP_TEST (attr_test MATCH_OFFSET (-1) MATCH_CMP_EQ (Some ''sites'')
        (DATA_VALUES [(MATCH_TYPE_INTEGER 16, Some 1), (MATCH_TYPE_INTEGER 32, Some 2)])))
     call_insn 16 (Some ''sites'') True \<lparr> rand_calls = 0, record_cell = Some 1 \<rparr>
     = Inr (True, \<lparr> rand_calls = 0, record_cell = Some 1 \<rparr>) \<and>
   matchEval example_env Map.empty
     (MATCH_OP_TEST (attr_test MATCH_OFFSET (-1) MATCH_CMP_EQ (Some ''sites'')
        (DATA_VALUES [(MATCH_TYPE_INTEGER 16, Some 1), (MATCH_TYPE_INTEGER 32, Some 2)])))
     call_insn 16 (Some ''sites'') True \<lparr> rand_calls = 0, record_cell = Some 2 \<rparr>
     = Inl (Fatal ''failed to lookup value from file; matching is ambiguous'')"
proof -
  let ?vs = "[(MATCH_TYPE_INTEGER 16, Some 1), (MATCH_TYPE_INTEGER 32, Some 2)]"
  let ?t = "attr_test MATCH_OFFSET (-1) MATCH_CMP_EQ (Some ''sites'') (DATA_VALUES ?vs)"
  let ?s1 = "\<lparr> rand_calls = 0, record_cell = Some (1::nat) \<rparr>"
  let ?s2 = "\<lparr> rand_calls = 0, record_cell = Some (2::nat) \<rparr>"
  let ?i = "(MATCH_TYPE_INTEGER 16, Some (1::nat))"
  have h: "\<And>s. rand_calls s = 0 \<Longrightarrow>
      is_value_kind (test_match ?t) \<and> test_cmp ?t = MATCH_CMP_EQ \<and>
      test_data ?t = DATA_VALUES ?vs \<and> test_basename ?t = Some ''sites'' \<and>
      plugin_val Map.empty ?t = Inr 0 \<and>
      makeMatchValue example_env (test_match ?t) (test_idx ?t) (test_field ?t) call_insn 16 0
        (rand_calls s) = (MATCH_TYPE_INTEGER 16, 0) \<and>
      MATCH_TYPE_INTEGER 16 \<noteq> MATCH_TYPE_UNDEFINED \<and>
      index_find (reg_num example_env) ?vs (MATCH_TYPE_INTEGER 16) = Some ?i"
    by (simp add: attr_test_def is_value_kind_def plugin_val_def makeMatchValue_def
        is_operand_kind_def index_find_def mv_lt_def compare.simps)
  have 1: "matchEval example_env Map.empty (MATCH_OP_TEST ?t) call_insn 16 (Some ''sites'') True ?s1 =
            (if record_cell ?s1 \<noteq> None \<and> snd ?i \<noteq> record_cell ?s1
             then Inl (Fatal ''failed to lookup value from file; matching is ambiguous'')
             else Inr (True, ?s1\<lparr> rand_calls := 0, record_cell := snd ?i \<rparr>))"
    by (rule csv_binding [where expr = MATCH_EXPR_NULL and basename = None and rcd = False
          and p = True and st' = ?s1 and r = 0,
          THEN conjunct2, THEN mp, OF h]) simp
  have 2: "matchEval example_env Map.empty (MATCH_OP_TEST ?t) call_insn 16 (Some ''sites'') True ?s2 =
            (if record_cell ?s2 \<noteq> None \<and> snd ?i \<noteq> record_cell ?s2
             then Inl (Fatal ''failed to lookup value from file; matching is ambiguous'')
             else Inr (True, ?s2\<lparr> rand_calls := 0, record_cell := snd ?i \<rparr>))"
    by (rule csv_binding [where expr = MATCH_EXPR_NULL and basename = None and rcd = False
          and p = True and st' = ?s2 and r = 0,
          THEN conjunct2, THEN mp, OF h]) simp
  have 3: "record_cell ?s1 = Some 1"
    by (rule csv_binding [where expr = "MATCH_OP_TEST ?t" and basename = "Some ''sites''"
          and rcd = True and st = ?s1 and p = True and st' = ?s1 and r = 1,
          THEN conjunct1, THEN mp]) (use 1 in simp)
  show ?thesis using 1 2 3 by simp
qed

section \<open>The reachability window\<close>

lemma ucast_diff:
  fixes a b :: "48 word"
  shows "sint ((ta + ucast a) - (ta + ucast b) :: 64 word) = uint a - uint b"
proof -
  have ua: "uint a < 2 ^ 48" using uint_bounded [of a] by simp
  have ub: "uint b < 2 ^ 48" using uint_bounded [of b] by simp
  have p: "(2::int) ^ 48 \<le> 2 ^ 63" by (rule power_increasing) simp_all
  have l: "LENGTH(64) - 1 = 63" by simp
  have lo: "- (2 ^ 63) \<le> uint a - uint b"
    using ua ub p uint_ge_0 [of a] uint_ge_0 [of b] by linarith
  have hi: "uint a - uint b < 2 ^ 63"
    using ua ub p uint_ge_0 [of a] uint_ge_0 [of b] by linarith
  have c: "(ta + ucast a) - (ta + ucast b) = (ucast a - ucast b :: 64 word)"
    by (rule add_diff_cancel_left)
  have e: "(ta + ucast a) - (ta + ucast b) = (word_of_int (uint a - uint b) :: 64 word)"
    unfolding c by (simp only: ucast_eq wi_hom_sub)
  have "sint (word_of_int (uint a - uint b) :: 64 word) = uint a - uint b"
    unfolding sint_sbintrunc' l by (rule signed_take_bit_int_eq_self [OF lo hi])
  then show ?thesis
    by (simp only: e)
qed

lemma window_test:
  "(\<bar>sint ((ta + ucast (loc_offset loc)) - (ta + ucast (loc_offset site)) :: 64 word)\<bar> > 127 + 2 + 15)
     = (\<not> within_reach site loc)"
  by (simp only: ucast_diff within_reach_def not_le)


lemma send_at_site:
  "sendInstructionMessage out loc (ta + ucast (loc_offset site)) ta tf =
     (if \<not> within_reach site loc then (False, loc, out)
      else if loc_emitted loc then (True, loc, out)
      else (True, loc\<lparr> loc_emitted := True \<rparr>, out @ [instruction_of ta tf loc]))"
  unfolding sendInstructionMessage_def window_test instruction_of_def by simp

lemma within_reach_emitted [simp]:
  "within_reach site (loc\<lparr> loc_emitted := b \<rparr>) = within_reach site loc"
  by (simp add: within_reach_def)

lemma instruction_of_emitted [simp]:
  "instruction_of ta tf (loc\<lparr> loc_emitted := b \<rparr>) = instruction_of ta tf loc"
  by (simp add: instruction_of_def)

lemma send_down_spec:
  assumes "j < length locs"
    and "send_down ta tf (ta + ucast (loc_offset S)) j locs out = (locs', out')"
  shows "out' = out @ map (\<lambda>k. instruction_of ta tf (locs ! k))
                   (filter (\<lambda>k. run_down S locs j k \<and> \<not> loc_emitted (locs ! k)) (rev [0..<Suc j]))
         \<and> length locs' = length locs
         \<and> (\<forall>k<length locs. locs' ! k =
               (if k \<le> j \<and> run_down S locs j k then (locs ! k)\<lparr> loc_emitted := True \<rparr> else locs ! k))"
  using assms
proof (induction j arbitrary: locs out locs' out')
  case 0
  then show ?case
    by (auto simp: send_at_site run_down_def nth_list_update split: if_splits)
next
  case (Suc j)
  let ?l = "locs ! Suc j"
  show ?case
  proof (cases "within_reach S ?l")
    case False
    have no: "\<And>k. k \<le> Suc j \<Longrightarrow> \<not> run_down S locs (Suc j) k"
      using False by (auto simp: run_down_def)
    have "filter (\<lambda>k. run_down S locs (Suc j) k \<and> \<not> loc_emitted (locs ! k)) (rev [0..<Suc (Suc j)]) = []"
      using no by (auto simp: filter_empty_conv)
    moreover have "locs' = locs" "out' = out"
      using Suc.prems False by (auto simp: send_at_site)
    ultimately show ?thesis using no by auto
  next
    case True
    define loc2 where "loc2 = (if loc_emitted ?l then ?l else ?l\<lparr> loc_emitted := True \<rparr>)"
    define locs2 where "locs2 = locs[Suc j := loc2]"
    define out2 where "out2 = (if loc_emitted ?l then out else out @ [instruction_of ta tf ?l])"
    have rec: "send_down ta tf (ta + ucast (loc_offset S)) j locs2 out2 = (locs', out')"
      using Suc.prems True by (auto simp: send_at_site loc2_def locs2_def out2_def)
    have len: "j < length locs2" using Suc.prems by (simp add: locs2_def)
    note ih = Suc.IH [OF len rec]
    have same: "\<And>k. k \<le> j \<Longrightarrow> locs2 ! k = locs ! k"
      by (simp add: locs2_def)
    have rd: "\<And>k. k \<le> j \<Longrightarrow> run_down S locs2 j k = run_down S locs (Suc j) k"
      using True same by (auto simp: run_down_def le_Suc_eq)
    have rdS: "run_down S locs (Suc j) (Suc j)"
      using True by (auto simp: run_down_def dest: le_antisym)
    have f: "filter (\<lambda>k. run_down S locs2 j k \<and> \<not> loc_emitted (locs2 ! k)) (rev [0..<Suc j])
           = filter (\<lambda>k. run_down S locs (Suc j) k \<and> \<not> loc_emitted (locs ! k)) (rev [0..<Suc j])"
      by (rule filter_cong) (auto simp: rd same less_Suc_eq_le simp del: upt_Suc)
    have m: "map (\<lambda>k. instruction_of ta tf (locs2 ! k))
               (filter (\<lambda>k. run_down S locs (Suc j) k \<and> \<not> loc_emitted (locs ! k)) (rev [0..<Suc j]))
           = map (\<lambda>k. instruction_of ta tf (locs ! k))
               (filter (\<lambda>k. run_down S locs (Suc j) k \<and> \<not> loc_emitted (locs ! k)) (rev [0..<Suc j]))"
      by (rule map_cong) (auto simp: same less_Suc_eq_le simp del: upt_Suc)
    have o: "out' = out @ map (\<lambda>k. instruction_of ta tf (locs ! k))
                   (filter (\<lambda>k. run_down S locs (Suc j) k \<and> \<not> loc_emitted (locs ! k)) (rev [0..<Suc (Suc j)]))"
      using ih f m rdS by (auto simp: out2_def)
    have l: "length locs' = length locs" using ih by (simp add: locs2_def)
    have p: "\<forall>k<length locs. locs' ! k =
               (if k \<le> Suc j \<and> run_down S locs (Suc j) k then (locs ! k)\<lparr> loc_emitted := True \<rparr> else locs ! k)"
    proof (intro allI impI)
      fix k assume k: "k < length locs"
      have ihk: "locs' ! k = (if k \<le> j \<and> run_down S locs2 j k then (locs2 ! k)\<lparr> loc_emitted := True \<rparr> else locs2 ! k)"
        using ih k by (simp add: locs2_def)
      show "locs' ! k = (if k \<le> Suc j \<and> run_down S locs (Suc j) k then (locs ! k)\<lparr> loc_emitted := True \<rparr> else locs ! k)"
      proof (cases "k \<le> j")
        case True
        then show ?thesis using ihk rd [OF True] same [OF True] by simp
      next
        case False
        show ?thesis
        proof (cases "k = Suc j")
          case True
          then show ?thesis using ihk False rdS Suc.prems by (auto simp: locs2_def loc2_def)
        next
          case False
          with \<open>\<not> k \<le> j\<close> have "Suc j < k" by simp
          then show ?thesis using ihk by (simp add: locs2_def)
        qed
      qed
    qed
    show ?thesis using o l p by blast
  qed
qed


lemma send_up_spec:
  assumes "send_up ta tf (ta + ucast (loc_offset S)) j locs out = (locs', out')"
  shows "out' = out @ map (\<lambda>k. instruction_of ta tf (locs ! k))
                   (filter (\<lambda>k. run_up S locs j k \<and> \<not> loc_emitted (locs ! k)) [j..<length locs])
         \<and> length locs' = length locs
         \<and> (\<forall>k<length locs. locs' ! k =
               (if j \<le> k \<and> run_up S locs j k then (locs ! k)\<lparr> loc_emitted := True \<rparr> else locs ! k))"
  using assms
proof (induction "length locs - j" arbitrary: j locs out locs' out')
  case 0
  from "0.hyps" have "length locs \<le> j" by simp
  then show ?case using "0.prems" by (auto simp: send_up.simps [of _ _ _ j])
next
  case (Suc n)
  from Suc.hyps(2) have jl: "j < length locs" by simp
  let ?l = "locs ! j"
  have upt: "[j..<length locs] = j # [Suc j..<length locs]"
    using jl by (rule upt_conv_Cons)
  show ?case
  proof (cases "within_reach S ?l")
    case False
    have no: "\<And>k. j \<le> k \<Longrightarrow> \<not> run_up S locs j k"
      using False by (auto simp: run_up_def)
    have "filter (\<lambda>k. run_up S locs j k \<and> \<not> loc_emitted (locs ! k)) [j..<length locs] = []"
      using no by (auto simp: filter_empty_conv)
    moreover have "locs' = locs" "out' = out"
      using Suc.prems False jl by (auto simp: send_up.simps [of _ _ _ j] send_at_site)
    ultimately show ?thesis using no by auto
  next
    case True
    define loc2 where "loc2 = (if loc_emitted ?l then ?l else ?l\<lparr> loc_emitted := True \<rparr>)"
    define locs2 where "locs2 = locs[j := loc2]"
    define out2 where "out2 = (if loc_emitted ?l then out else out @ [instruction_of ta tf ?l])"
    have rec: "send_up ta tf (ta + ucast (loc_offset S)) (Suc j) locs2 out2 = (locs', out')"
      using Suc.prems True jl
      by (auto simp: send_up.simps [of _ _ _ j] send_at_site loc2_def locs2_def out2_def)
    have n: "n = length locs2 - Suc j" using Suc.hyps(2) by (simp add: locs2_def)
    note ih = Suc.hyps(1) [OF n rec]
    have same: "\<And>k. Suc j \<le> k \<Longrightarrow> locs2 ! k = locs ! k"
      by (simp add: locs2_def)
    have ru: "\<And>k. Suc j \<le> k \<Longrightarrow> run_up S locs2 (Suc j) k = run_up S locs j k"
    proof -
      fix k assume "Suc j \<le> k"
      have "\<And>m. j \<le> m \<Longrightarrow> m = j \<or> Suc j \<le> m" by auto
      then show "run_up S locs2 (Suc j) k = run_up S locs j k"
        using True same unfolding run_up_def by (metis Suc_leD)
    qed
    have ruj: "run_up S locs j j"
      using True by (auto simp: run_up_def dest: le_antisym)
    have f: "filter (\<lambda>k. run_up S locs2 (Suc j) k \<and> \<not> loc_emitted (locs2 ! k)) [Suc j..<length locs]
           = filter (\<lambda>k. run_up S locs j k \<and> \<not> loc_emitted (locs ! k)) [Suc j..<length locs]"
      by (rule filter_cong) (auto simp: ru same)
    have m: "map (\<lambda>k. instruction_of ta tf (locs2 ! k))
               (filter (\<lambda>k. run_up S locs j k \<and> \<not> loc_emitted (locs ! k)) [Suc j..<length locs])
           = map (\<lambda>k. instruction_of ta tf (locs ! k))
               (filter (\<lambda>k. run_up S locs j k \<and> \<not> loc_emitted (locs ! k)) [Suc j..<length locs])"
      by (rule map_cong) (auto simp: same)
    have o: "out' = out @ map (\<lambda>k. instruction_of ta tf (locs ! k))
                   (filter (\<lambda>k. run_up S locs j k \<and> \<not> loc_emitted (locs ! k)) [j..<length locs])"
      unfolding upt using ih f m ruj by (auto simp: out2_def locs2_def)
    have l: "length locs' = length locs" using ih by (simp add: locs2_def)
    have p: "\<forall>k<length locs. locs' ! k =
               (if j \<le> k \<and> run_up S locs j k then (locs ! k)\<lparr> loc_emitted := True \<rparr> else locs ! k)"
    proof (intro allI impI)
      fix k assume k: "k < length locs"
      have ihk: "locs' ! k = (if Suc j \<le> k \<and> run_up S locs2 (Suc j) k then (locs2 ! k)\<lparr> loc_emitted := True \<rparr> else locs2 ! k)"
        using ih k by (simp add: locs2_def)
      show "locs' ! k = (if j \<le> k \<and> run_up S locs j k then (locs ! k)\<lparr> loc_emitted := True \<rparr> else locs ! k)"
      proof (cases "Suc j \<le> k")
        case True
        then show ?thesis using ihk ru [OF True] same [OF True] by simp
      next
        case False
        show ?thesis
        proof (cases "k = j")
          case True
          then show ?thesis using ihk False ruj jl by (auto simp: locs2_def loc2_def)
        next
          case False
          with \<open>\<not> Suc j \<le> k\<close> have "k < j" by simp
          then show ?thesis using ihk by (simp add: locs2_def)
        qed
      qed
    qed
    show ?thesis using o l p by blast
  qed
qed


lemma reached_down: "k \<le> i \<Longrightarrow> reached locs i k = run_down (locs ! i) locs i k"
  by (auto simp: reached_def run_down_def list_all_iff less_Suc_eq_le simp del: upt_Suc)

lemma reached_up: "i < k \<Longrightarrow> reached locs i k = run_up (locs ! i) locs (Suc i) k"
  by (auto simp: reached_def run_up_def list_all_iff less_Suc_eq_le simp del: upt_Suc)

lemma send_site_spec:
  assumes i: "i < length locs"
    and s: "send_site ta tf i locs out = (locs', out')"
  shows "out' = out @ map (\<lambda>k. instruction_of ta tf (locs ! k))
                   (filter (\<lambda>k. reached locs i k \<and> \<not> loc_emitted (locs ! k)) (visit_order locs i))"
    and "length locs' = length locs"
    and "\<forall>k<length locs. locs' ! k =
           (if reached locs i k then (locs ! k)\<lparr> loc_emitted := True \<rparr> else locs ! k)"
proof -
  let ?S = "locs ! i"
  obtain locs1 out1 where d: "send_down ta tf (ta + ucast (loc_offset ?S)) i locs out = (locs1, out1)"
    by (cases "send_down ta tf (ta + ucast (loc_offset ?S)) i locs out")
  have u: "send_up ta tf (ta + ucast (loc_offset ?S)) (Suc i) locs1 out1 = (locs', out')"
    using s d by (simp add: send_site_def)
  note D = send_down_spec [OF i d]
  note U = send_up_spec [OF u]
  have len1: "length locs1 = length locs" using D by simp
  have up_same: "\<And>k. i < k \<Longrightarrow> k < length locs \<Longrightarrow> locs1 ! k = locs ! k"
    using D by auto
  have wr: "\<And>k. k < length locs \<Longrightarrow> within_reach ?S (locs1 ! k) = within_reach ?S (locs ! k)"
    using D by auto
  have ru: "\<And>k. k < length locs \<Longrightarrow> run_up ?S locs1 (Suc i) k = run_up ?S locs (Suc i) k"
    unfolding run_up_def using wr by (metis le_less_trans)
  have f1: "filter (\<lambda>k. run_down ?S locs i k \<and> \<not> loc_emitted (locs ! k)) (rev [0..<Suc i])
          = filter (\<lambda>k. reached locs i k \<and> \<not> loc_emitted (locs ! k)) (rev [0..<Suc i])"
    by (rule filter_cong) (auto simp: reached_down less_Suc_eq_le simp del: upt_Suc)
  have f2: "filter (\<lambda>k. run_up ?S locs1 (Suc i) k \<and> \<not> loc_emitted (locs1 ! k)) [Suc i..<length locs1]
          = filter (\<lambda>k. reached locs i k \<and> \<not> loc_emitted (locs ! k)) [Suc i..<length locs]"
    unfolding len1 by (rule filter_cong) (auto simp: reached_up ru up_same)
  have m2: "map (\<lambda>k. instruction_of ta tf (locs1 ! k))
              (filter (\<lambda>k. reached locs i k \<and> \<not> loc_emitted (locs ! k)) [Suc i..<length locs])
          = map (\<lambda>k. instruction_of ta tf (locs ! k))
              (filter (\<lambda>k. reached locs i k \<and> \<not> loc_emitted (locs ! k)) [Suc i..<length locs])"
    by (rule map_cong) (auto simp: up_same)
  show "out' = out @ map (\<lambda>k. instruction_of ta tf (locs ! k))
                   (filter (\<lambda>k. reached locs i k \<and> \<not> loc_emitted (locs ! k)) (visit_order locs i))"
    using D U unfolding visit_order_def filter_append map_append f1 f2 m2 by simp
  show "length locs' = length locs" using U len1 by simp
  show "\<forall>k<length locs. locs' ! k =
           (if reached locs i k then (locs ! k)\<lparr> loc_emitted := True \<rparr> else locs ! k)"
  proof (intro allI impI)
    fix k assume k: "k < length locs"
    have uk: "locs' ! k = (if Suc i \<le> k \<and> run_up ?S locs1 (Suc i) k
                           then (locs1 ! k)\<lparr> loc_emitted := True \<rparr> else locs1 ! k)"
      using U k len1 by simp
    have dk: "locs1 ! k = (if k \<le> i \<and> run_down ?S locs i k
                           then (locs ! k)\<lparr> loc_emitted := True \<rparr> else locs ! k)"
      using D k by simp
    show "locs' ! k = (if reached locs i k then (locs ! k)\<lparr> loc_emitted := True \<rparr> else locs ! k)"
    proof (cases "k \<le> i")
      case True
      then show ?thesis using uk dk by (simp add: reached_down)
    next
      case False
      then have "i < k" by simp
      then show ?thesis using uk dk k by (simp add: reached_up ru)
    qed
  qed
qed

lemma sorted_reached:
  assumes srt: "sorted (map (\<lambda>l. uint (loc_offset l)) locs)"
    and i: "i < length locs" and j: "j < length locs"
  shows "reached locs i j \<longleftrightarrow> within_reach (locs ! i) (locs ! j)"
proof -
  have mono: "\<And>a b. a \<le> b \<Longrightarrow> b < length locs \<Longrightarrow>
                uint (loc_offset (locs ! a)) \<le> uint (loc_offset (locs ! b))"
  proof -
    fix a b assume ab: "a \<le> b" "b < length locs"
    have "map (\<lambda>l. uint (loc_offset l)) locs ! a \<le> map (\<lambda>l. uint (loc_offset l)) locs ! b"
      by (rule sorted_nth_mono [OF srt]) (use ab in auto)
    then show "uint (loc_offset (locs ! a)) \<le> uint (loc_offset (locs ! b))"
      using ab by simp
  qed
  show ?thesis
  proof (cases "j \<le> i")
    case True
    have "\<And>m. j \<le> m \<Longrightarrow> m \<le> i \<Longrightarrow> within_reach (locs ! i) (locs ! j)
            \<Longrightarrow> within_reach (locs ! i) (locs ! m)"
    proof -
      fix m assume m: "j \<le> m" "m \<le> i" and w: "within_reach (locs ! i) (locs ! j)"
      have "uint (loc_offset (locs ! j)) \<le> uint (loc_offset (locs ! m))"
        "uint (loc_offset (locs ! m)) \<le> uint (loc_offset (locs ! i))"
        using mono [of j m] mono [of m i] m i by auto
      then show "within_reach (locs ! i) (locs ! m)"
        using w by (simp add: within_reach_def)
    qed
    then show ?thesis
      using True by (auto simp: reached_def list_all_iff less_Suc_eq_le simp del: upt_Suc)
  next
    case False
    have "\<And>m. i < m \<Longrightarrow> m \<le> j \<Longrightarrow> within_reach (locs ! i) (locs ! j)
            \<Longrightarrow> within_reach (locs ! i) (locs ! m)"
    proof -
      fix m assume m: "i < m" "m \<le> j" and w: "within_reach (locs ! i) (locs ! j)"
      have "uint (loc_offset (locs ! i)) \<le> uint (loc_offset (locs ! m))"
        "uint (loc_offset (locs ! m)) \<le> uint (loc_offset (locs ! j))"
        using mono [of i m] mono [of m j] m j by auto
      then show "within_reach (locs ! i) (locs ! m)"
        using w by (simp add: within_reach_def)
    qed
    then show ?thesis
      using False by (auto simp: reached_def list_all_iff less_Suc_eq_le simp del: upt_Suc)
  qed
qed

lemma instruction_of_offset:
  assumes "instruction_of ta tf a = instruction_of ta tf b"
  shows "loc_offset a = loc_offset b"
proof -
  have "(ta + ucast (loc_offset a)) - (ta + ucast (loc_offset b)) = (0 :: 64 word)"
    using assms by (simp add: instruction_of_def)
  then have "sint ((ta + ucast (loc_offset a)) - (ta + ucast (loc_offset b)) :: 64 word) = sint (0 :: 64 word)"
    by (rule arg_cong)
  then have "uint (loc_offset a) - uint (loc_offset b) = 0"
    by (simp only: ucast_diff sint_0)
  then have "uint (loc_offset a) = uint (loc_offset b)"
    by linarith
  then show ?thesis by (rule unsigned_word_eqI)
qed

lemma instruction_of_same:
  "loc_offset a = loc_offset b \<Longrightarrow> loc_size a = loc_size b \<Longrightarrow>
   instruction_of ta tf a = instruction_of ta tf b"
  by (simp add: instruction_of_def)

lemma visit_order_distinct: "i < length locs \<Longrightarrow> distinct (visit_order locs i)"
  by (auto simp: visit_order_def simp del: upt_Suc)

lemma visit_order_set: "i < length locs \<Longrightarrow> set (visit_order locs i) = {0..<length locs}"
  by (auto simp: visit_order_def simp del: upt_Suc)

lemma walk_inv_site:
  assumes inv: "walk_inv ta tf locs0 locs out"
    and dist: "distinct (map loc_offset locs0)"
    and i: "i < length locs"
    and s: "send_site ta tf i locs out = (locs', out')"
  shows "walk_inv ta tf locs0 locs' out'"
proof -
  let ?ks = "filter (\<lambda>k. reached locs i k \<and> \<not> loc_emitted (locs ! k)) (visit_order locs i)"
  let ?new = "map (\<lambda>k. instruction_of ta tf (locs ! k)) ?ks"
  note S = send_site_spec [OF i s]
  have len: "length locs = length locs0" using inv by (simp add: walk_inv_def)
  have fld: "\<And>k. k < length locs0 \<Longrightarrow> loc_offset (locs ! k) = loc_offset (locs0 ! k) \<and>
                 loc_size (locs ! k) = loc_size (locs0 ! k) \<and>
                 (loc_emitted (locs0 ! k) \<longrightarrow> loc_emitted (locs ! k))"
    using inv by (simp add: walk_inv_def)
  have old: "\<And>msg. msg \<in> set out \<Longrightarrow> is_Instruction msg \<Longrightarrow>
                (\<exists>k<length locs0. msg = instruction_of ta tf (locs0 ! k) \<and>
                            \<not> loc_emitted (locs0 ! k) \<and> loc_emitted (locs ! k))"
    using inv by (simp add: walk_inv_def)
  have dold: "distinct (filter is_Instruction out)" using inv by (simp add: walk_inv_def)
  have ks: "\<And>k. k \<in> set ?ks \<Longrightarrow> k < length locs0 \<and> reached locs i k \<and> \<not> loc_emitted (locs ! k)"
    using visit_order_set [OF i] len by auto
  have same: "\<And>k. k < length locs0 \<Longrightarrow> instruction_of ta tf (locs ! k) = instruction_of ta tf (locs0 ! k)"
    by (rule instruction_of_same) (use fld in auto)
  have idx: "\<And>a b. a < length locs0 \<Longrightarrow> b < length locs0 \<Longrightarrow>
               instruction_of ta tf (locs0 ! a) = instruction_of ta tf (locs0 ! b) \<Longrightarrow> a = b"
  proof -
    fix a b assume a: "a < length locs0" and b: "b < length locs0"
      and e: "instruction_of ta tf (locs0 ! a) = instruction_of ta tf (locs0 ! b)"
    have "map loc_offset locs0 ! a = map loc_offset locs0 ! b"
      using instruction_of_offset [OF e] a b by simp
    then show "a = b" using nth_eq_iff_index_eq [OF dist, of a b] a b by simp
  qed
  have new_instr: "filter is_Instruction ?new = ?new"
    by (simp add: instruction_of_def filter_map comp_def)
  have inj: "inj_on (\<lambda>k. instruction_of ta tf (locs ! k)) (set ?ks)"
  proof (rule inj_onI)
    fix a b assume a: "a \<in> set ?ks" and b: "b \<in> set ?ks"
      and e: "instruction_of ta tf (locs ! a) = instruction_of ta tf (locs ! b)"
    show "a = b" using idx [of a b] ks [OF a] ks [OF b] e same by simp
  qed
  have dnew: "distinct ?new"
    using visit_order_distinct [OF i] inj by (simp add: distinct_map)
  have disj: "set (filter is_Instruction out) \<inter> set ?new = {}"
  proof (rule ccontr)
    assume "set (filter is_Instruction out) \<inter> set ?new \<noteq> {}"
    then obtain msg where m1: "msg \<in> set out" "is_Instruction msg" and m2: "msg \<in> set ?new"
      by auto
    from m2 obtain k where k: "k \<in> set ?ks" and mk: "msg = instruction_of ta tf (locs ! k)"
      by auto
    from old [OF m1] obtain k0 where k0: "k0 < length locs0"
      "msg = instruction_of ta tf (locs0 ! k0)" "loc_emitted (locs ! k0)" by blast
    have "k = k0" using idx [of k k0] ks [OF k] k0 mk same by simp
    then show False using ks [OF k] k0 by simp
  qed
  have d: "distinct (filter is_Instruction out')"
    using dold dnew disj by (simp add: S(1) new_instr)
  have l': "length locs' = length locs0" using S(2) len by simp
  have nth': "\<And>k. k < length locs0 \<Longrightarrow> locs' ! k =
                 (if reached locs i k then (locs ! k)\<lparr> loc_emitted := True \<rparr> else locs ! k)"
    using S(3) len by simp
  have f': "\<forall>k<length locs0. loc_offset (locs' ! k) = loc_offset (locs0 ! k) \<and>
                         loc_size (locs' ! k) = loc_size (locs0 ! k) \<and>
                         (loc_emitted (locs0 ! k) \<longrightarrow> loc_emitted (locs' ! k))"
    using fld nth' by simp
  have mono: "\<And>k. k < length locs0 \<Longrightarrow> loc_emitted (locs ! k) \<Longrightarrow> loc_emitted (locs' ! k)"
    using nth' by simp
  have m': "\<forall>msg\<in>set out'. is_Instruction msg \<longrightarrow>
         (\<exists>k<length locs0. msg = instruction_of ta tf (locs0 ! k) \<and>
                            \<not> loc_emitted (locs0 ! k) \<and> loc_emitted (locs' ! k))"
  proof (intro ballI impI)
    fix msg assume m: "msg \<in> set out'" and im: "is_Instruction msg"
    from m have "msg \<in> set out \<or> msg \<in> set ?new" by (simp add: S(1))
    then show "\<exists>k<length locs0. msg = instruction_of ta tf (locs0 ! k) \<and>
                            \<not> loc_emitted (locs0 ! k) \<and> loc_emitted (locs' ! k)"
    proof
      assume "msg \<in> set out"
      from old [OF this im] mono show ?thesis by blast
    next
      assume "msg \<in> set ?new"
      then obtain k where k: "k \<in> set ?ks" and mk: "msg = instruction_of ta tf (locs ! k)"
        by auto
      have k1: "k < length locs0" "reached locs i k" "\<not> loc_emitted (locs ! k)"
        using ks [OF k] by auto
      have "msg = instruction_of ta tf (locs0 ! k)" using mk same k1 by simp
      moreover have "\<not> loc_emitted (locs0 ! k)" using fld k1 by blast
      moreover have "loc_emitted (locs' ! k)" using nth' k1 by simp
      ultimately show ?thesis using k1 by blast
    qed
  qed
  show ?thesis unfolding walk_inv_def using l' f' d m' by blast
qed

lemma patch_site_msgs:
  "patch_site actions ps loc off = Inr msgs \<Longrightarrow> \<forall>m\<in>set msgs. \<not> is_Instruction m"
  by (auto simp: patch_site_def Let_def split: if_splits option.splits)

lemma walk_inv_patch:
  "walk_inv ta tf locs0 locs out \<Longrightarrow> \<forall>m\<in>set msgs. \<not> is_Instruction m
     \<Longrightarrow> walk_inv ta tf locs0 locs (out @ msgs)"
  by (auto simp: walk_inv_def filter_empty_conv)

lemma walk_inv_walk:
  assumes "walk_inv ta tf locs0 locs out" and "distinct (map loc_offset locs0)"
    and "n \<le> length locs" and "patch_walk dis actions ps ta tf n locs out = (locs', out', err)"
  shows "walk_inv ta tf locs0 locs' out'"
  using assms
proof (induction n arbitrary: locs out)
  case 0
  then show ?case by simp
next
  case (Suc n)
  have n: "n < length locs" using Suc.prems(3) by simp
  show ?case
  proof (cases "loc_patch (locs ! n)")
    case False
    then have "patch_walk dis actions ps ta tf n locs out = (locs', out', err)"
      using Suc.prems(4) by simp
    then show ?thesis using Suc.IH [OF Suc.prems(1,2)] n by simp
  next
    case True
    show ?thesis
    proof (cases "dis (ucast (loc_offset (locs ! n)) + tf)")
      case False
      then have "locs' = locs" "out' = out" using Suc.prems(4) True by (simp_all add: Let_def)
      then show ?thesis using Suc.prems(1) by simp
    next
      case d: True
      obtain locs1 out1 where s: "send_site ta tf n locs out = (locs1, out1)"
        by (cases "send_site ta tf n locs out")
      have i1: "walk_inv ta tf locs0 locs1 out1"
        by (rule walk_inv_site [OF Suc.prems(1,2) n s])
      show ?thesis
      proof (cases "patch_site actions ps (locs1 ! n) (ucast (loc_offset (locs ! n)) + tf)")
        case (Inl e)
        then have "locs' = locs1" "out' = out1"
          using Suc.prems(4) True d s by (simp_all add: Let_def)
        then show ?thesis using i1 by simp
      next
        case (Inr msgs)
        have i2: "walk_inv ta tf locs0 locs1 (out1 @ msgs)"
          by (rule walk_inv_patch [OF i1 patch_site_msgs [OF Inr]])
        have l1: "n \<le> length locs1" using send_site_spec(2) [OF n s] n by simp
        have r: "patch_walk dis actions ps ta tf n locs1 (out1 @ msgs) = (locs', out', err)"
          using Suc.prems(4) True d s Inr by (simp add: Let_def)
        show ?thesis by (rule Suc.IH [OF i2 Suc.prems(2) l1 r])
      qed
    qed
  qed
qed

lemma walk_inv_init: "walk_inv ta tf locs locs []"
  by (simp add: walk_inv_def)

text \<open>
  C2. For a patch site at index \<open>i\<close>, the two inner loops send the \<open>Instruction\<close> message
  of exactly the locations that are reached and not yet emitted, in the order of the walk, and
  set the \<open>emitted\<close> flag of every reached location; a location is reached when no location
  between the site and it (itself included) is outside the window, so each loop stops at the
  first location outside the window. When the locations are in address order, as the
  disassembly loop appends them, a location is reached exactly when it is within the window
  itself. The window test on the offsets is the test the code makes on the addresses:
  \<open>|addr' - addr| \<le> INT8_MAX + 2 + 15\<close>.
\<close>

theorem reach_window:
  assumes i: "i < length locs"
  shows "send_site ta tf i locs out =
           (map (\<lambda>k. if reached locs i k then (locs ! k)\<lparr> loc_emitted := True \<rparr> else locs ! k)
              [0..<length locs],
            out @ map (\<lambda>k. instruction_of ta tf (locs ! k))
                    (filter (\<lambda>k. reached locs i k \<and> \<not> loc_emitted (locs ! k)) (visit_order locs i)))
         \<and> (sorted (map (\<lambda>l. uint (loc_offset l)) locs) \<longrightarrow>
              (\<forall>j<length locs. reached locs i j \<longleftrightarrow> within_reach (locs ! i) (locs ! j)))
         \<and> (\<forall>j<length locs. within_reach (locs ! i) (locs ! j) \<longleftrightarrow>
              \<bar>sint ((ta + ucast (loc_offset (locs ! j))) - (ta + ucast (loc_offset (locs ! i))) :: 64 word)\<bar>
                \<le> 127 + 2 + 15)"
proof -
  obtain locs' out' where s: "send_site ta tf i locs out = (locs', out')"
    by (cases "send_site ta tf i locs out")
  note S = send_site_spec [OF i s]
  have "locs' = map (\<lambda>k. if reached locs i k then (locs ! k)\<lparr> loc_emitted := True \<rparr> else locs ! k)
              [0..<length locs]"
    by (rule nth_equalityI) (use S in auto)
  then have 1: "send_site ta tf i locs out =
           (map (\<lambda>k. if reached locs i k then (locs ! k)\<lparr> loc_emitted := True \<rparr> else locs ! k)
              [0..<length locs],
            out @ map (\<lambda>k. instruction_of ta tf (locs ! k))
                    (filter (\<lambda>k. reached locs i k \<and> \<not> loc_emitted (locs ! k)) (visit_order locs i)))"
    using s S(1) by simp
  have 2: "sorted (map (\<lambda>l. uint (loc_offset l)) locs) \<longrightarrow>
              (\<forall>j<length locs. reached locs i j \<longleftrightarrow> within_reach (locs ! i) (locs ! j))"
    using sorted_reached [OF _ i] by blast
  have 3: "\<forall>j<length locs. within_reach (locs ! i) (locs ! j) \<longleftrightarrow>
              \<bar>sint ((ta + ucast (loc_offset (locs ! j))) - (ta + ucast (loc_offset (locs ! i))) :: 64 word)\<bar>
                \<le> 127 + 2 + 15"
  proof (intro allI impI)
    fix j
    have "(\<bar>sint ((ta + ucast (loc_offset (locs ! j))) - (ta + ucast (loc_offset (locs ! i))) :: 64 word)\<bar>
             > 127 + 2 + 15) = (\<not> within_reach (locs ! i) (locs ! j))"
      by (rule window_test)
    then show "within_reach (locs ! i) (locs ! j) \<longleftrightarrow>
              \<bar>sint ((ta + ucast (loc_offset (locs ! j))) - (ta + ucast (loc_offset (locs ! i))) :: 64 word)\<bar>
                \<le> 127 + 2 + 15"
      by linarith
  qed
  show ?thesis using 1 2 3 by blast
qed

theorem reach_window_witness:
  "(2::nat) < length example_locs \<and>
   sorted (map (\<lambda>l. uint (loc_offset l)) example_locs) \<and>
   snd (send_site 0x401000 0x1000 2 example_locs []) =
     [Instruction 4198503 2 4199, Instruction 4198500 3 4196, Instruction 4198400 5 4096] \<and>
   within_reach (example_locs ! 2) (example_locs ! 0) \<and>
   \<not> within_reach (example_locs ! 2) (example_locs ! 3)"
proof -
  have i: "(2::nat) < length example_locs" by (simp add: example_locs_def)
  have s: "sorted (map (\<lambda>l. uint (loc_offset l)) example_locs)" by (simp add: example_locs_def)
  have v: "visit_order example_locs 2 = [2, 1, 0, 3]"
    by (simp add: visit_order_def example_locs_def upt_rec)
  have r: "reached example_locs 2 0" "reached example_locs 2 (Suc 0)" "reached example_locs 2 2"
    "\<not> reached example_locs 2 3"
    by (simp_all add: reached_def example_locs_def within_reach_def upt_rec)
  have w: "within_reach (example_locs ! 2) (example_locs ! 0)"
    "\<not> within_reach (example_locs ! 2) (example_locs ! 3)"
    by (simp_all add: example_locs_def within_reach_def)
  have m: "map (\<lambda>k. instruction_of 0x401000 0x1000 (example_locs ! k)) [2, 1, 0] =
     [Instruction 4198503 2 4199, Instruction 4198500 3 4196, Instruction 4198400 5 4096]"
    by (simp add: example_locs_def instruction_of_def)
  have e: "\<not> loc_emitted (example_locs ! 0)" "\<not> loc_emitted (example_locs ! Suc 0)"
    "\<not> loc_emitted (example_locs ! 2)"
    by (simp_all add: example_locs_def)
  from reach_window [OF i, of "0x401000" "0x1000" "[]"] have
    "snd (send_site 0x401000 0x1000 2 example_locs []) =
       map (\<lambda>k. instruction_of 0x401000 0x1000 (example_locs ! k)) [2, 1, 0]"
    by (simp add: v r e)
  then show ?thesis using i s w m by simp
qed

section \<open>Idempotent emission\<close>

text \<open>
  C3. Over the whole reverse walk no \<open>Instruction\<close> message is sent twice; none is
  sent for a location whose \<open>emitted\<close> flag is already set, and the flag stays set; a single
  call of \<^verbatim>\<open>sendInstructionMessage\<close> on such a location sends nothing. Locations are
  instructions at different offsets, so the message identifies the location. This holds for
  every list of rules and every set of plugins, and for the stream written up to the point
  where a walk is ended by an error.
\<close>

theorem emitted_once:
  assumes dist: "distinct (map loc_offset locs)"
  shows "distinct (filter is_Instruction
           (fst (snd (patch_walk dis actions ps ta tf (length locs) locs []))))
       \<and> (\<forall>k<length locs. loc_emitted (locs ! k) \<longrightarrow>
            instruction_of ta tf (locs ! k)
              \<notin> set (fst (snd (patch_walk dis actions ps ta tf (length locs) locs [])))
            \<and> loc_emitted (fst (patch_walk dis actions ps ta tf (length locs) locs []) ! k))
       \<and> (\<forall>out0 loc addr. loc_emitted loc \<longrightarrow>
            snd (snd (sendInstructionMessage out0 loc addr ta tf)) = out0)"
proof -
  obtain locs' out err
    where w: "patch_walk dis actions ps ta tf (length locs) locs [] = (locs', out, err)"
    by (cases "patch_walk dis actions ps ta tf (length locs) locs []") auto
  have inv: "walk_inv ta tf locs locs' out"
    by (rule walk_inv_walk [OF walk_inv_init dist _ w]) simp
  have 1: "distinct (filter is_Instruction out)" using inv by (simp add: walk_inv_def)
  have 2: "\<forall>k<length locs. loc_emitted (locs ! k) \<longrightarrow>
             instruction_of ta tf (locs ! k) \<notin> set out \<and> loc_emitted (locs' ! k)"
  proof (intro allI impI conjI notI)
    fix k assume k: "k < length locs" and e: "loc_emitted (locs ! k)"
    show "loc_emitted (locs' ! k)" using inv k e by (simp add: walk_inv_def)
    assume m: "instruction_of ta tf (locs ! k) \<in> set out"
    have "is_Instruction (instruction_of ta tf (locs ! k))" by (simp add: instruction_of_def)
    with inv m obtain k' where k': "k' < length locs"
      "instruction_of ta tf (locs ! k) = instruction_of ta tf (locs ! k')"
      "\<not> loc_emitted (locs ! k')"
      unfolding walk_inv_def by blast
    have "map loc_offset locs ! k = map loc_offset locs ! k'"
      using instruction_of_offset [OF k'(2)] k k' by simp
    then have "k = k'" using nth_eq_iff_index_eq [OF dist, of k k'] k k' by simp
    then show False using e k' by simp
  qed
  have 3: "\<forall>out0 loc addr. loc_emitted loc \<longrightarrow>
            snd (snd (sendInstructionMessage out0 loc addr ta tf)) = out0"
    by (simp add: sendInstructionMessage_def)
  show ?thesis using 1 2 3 by (simp add: w)
qed

theorem emitted_once_witness:
  "distinct (map loc_offset example_locs) \<and>
   snd (patch_walk (\<lambda>off. True) example_rules Map.empty 0x401000 0x1000
          (length example_locs) example_locs []) =
     ([Instruction 4198800 1 4496, Patch ''exit_1'' 4496, Instruction 4198503 2 4199,
       Instruction 4198500 3 4196, Instruction 4198400 5 4096, Patch ''passthru'' 4199,
       Patch ''exit_1'' 4196], None) \<and>
   snd (patch_walk (\<lambda>off. True) example_plugin_rules example_plugins 0x401000 0x1000
          (length example_locs) example_locs []) =
     ([Instruction 4198800 1 4496, Plugin_patch ''/p.so'' 4496, Instruction 4198503 2 4199,
       Instruction 4198500 3 4196, Instruction 4198400 5 4096, Plugin_patch ''/p.so'' 4196],
      None) \<and>
   distinct (filter is_Instruction
      (fst (snd (patch_walk (\<lambda>off. True) example_rules Map.empty 0x401000 0x1000
                   (length example_locs) example_locs []))))"
proof -
  have d: "distinct (map loc_offset example_locs)"
    by (simp add: example_locs_def)
  have w: "patch_walk (\<lambda>off. True) example_rules Map.empty 0x401000 0x1000
             (length example_locs) example_locs [] =
     ([\<lparr>loc_offset = 0, loc_size = 5, loc_emitted = True, loc_patch = False, loc_action = 0\<rparr>,
       \<lparr>loc_offset = 100, loc_size = 3, loc_emitted = True, loc_patch = True, loc_action = 0\<rparr>,
       \<lparr>loc_offset = 103, loc_size = 2, loc_emitted = True, loc_patch = True, loc_action = 1\<rparr>,
       \<lparr>loc_offset = 400, loc_size = 1, loc_emitted = True, loc_patch = True, loc_action = 0\<rparr>],
      [Instruction 4198800 1 4496, Patch ''exit_1'' 4496, Instruction 4198503 2 4199,
       Instruction 4198500 3 4196, Instruction 4198400 5 4096, Patch ''passthru'' 4199,
       Patch ''exit_1'' 4196], None)"
    by (simp add: example_locs_def example_rules_def patch_site_def send_site_def
          sendInstructionMessage_def send_up.simps)
  have v: "snd (patch_walk (\<lambda>off. True) example_plugin_rules example_plugins 0x401000 0x1000
             (length example_locs) example_locs []) =
     ([Instruction 4198800 1 4496, Plugin_patch ''/p.so'' 4496, Instruction 4198503 2 4199,
       Instruction 4198500 3 4196, Instruction 4198400 5 4096, Plugin_patch ''/p.so'' 4196],
      None)"
    by (simp add: example_locs_def example_plugin_rules_def example_plugins_def patch_site_def
          send_site_def sendInstructionMessage_def send_up.simps)
  have "distinct (filter is_Instruction
      (fst (snd (patch_walk (\<lambda>off. True) example_rules Map.empty 0x401000 0x1000
                   (length example_locs) example_locs []))))"
    by (rule emitted_once [OF d, THEN conjunct1])
  then show ?thesis using d w v by simp
qed

end
